theory Spec2Isabelle
  imports Main "HOL-Library.Word" "HOL-Library.Monad_Syntax"
begin

unbundle bit_operations_syntax

section \<open>Machine integers\<close>

text \<open>
  The engine works on \<open>uint64_t\<close>, \<open>uint32_t\<close> and \<open>uint8_t\<close> values. They are
  modelled as words of that width, so that \<open>+\<close>, \<open>-\<close> and \<open>*\<close> wrap as they do in C.
\<close>

type_synonym u64 = "64 word"
type_synonym u32 = "32 word"
type_synonym u8 = "8 word"

section \<open>Modular arithmetic primitives (hyper\_goliath.h)\<close>

text \<open>
  \<open>powmod\<close>: the loop state is \<open>result\<close>, \<open>base\<close> and \<open>exp\<close>. The model carries
  one ghost flag beside them, \<open>ovf\<close>, which is raised when the mathematical value of one
  of the two products of an iteration does not fit into 64 bits (the C product then
  wraps silently). The words themselves are computed with the wrapping product, as
  the C code computes them.
\<close>

function powmod_loop :: "u64 \<Rightarrow> u64 \<Rightarrow> u32 \<Rightarrow> u64 \<Rightarrow> bool \<Rightarrow> u64 \<times> bool" where
  "powmod_loop result base exp m ovf =
     (if exp > 0 then
        (let (result', ovf') =
               (if exp AND 1 \<noteq> 0
                then ((result * base) mod m, ovf \<or> 2 ^ 64 \<le> unat result * unat base)
                else (result, ovf));
             exp' = drop_bit 1 exp;
             ovf'' = (ovf' \<or> 2 ^ 64 \<le> unat base * unat base);
             base' = (base * base) mod m
         in powmod_loop result' base' exp' m ovf'')
      else (result, ovf))"
  by pat_completeness auto
termination
  apply (relation "measure (\<lambda>(result, base, exp, m, ovf). unat exp)")
   apply simp
  apply (simp add: drop_bit_eq_div unat_div word_greater_zero_iff unat_eq_0 flip: unat_gt_0)
  done

declare powmod_loop.simps [simp del]

text \<open>
  \<open>base %= m\<close> is a division: with \<open>m = 0\<close> the C program traps, which is the value
  \<open>None\<close> here.
\<close>

definition powmod_run :: "u64 \<Rightarrow> u32 \<Rightarrow> u64 \<Rightarrow> (u64 \<times> bool) option" where
  "powmod_run base exp m =
     (if m = 0 then None else Some (powmod_loop 1 (base mod m) exp m False))"

definition powmod :: "u64 \<Rightarrow> u32 \<Rightarrow> u64 \<Rightarrow> u64 option" where
  "powmod base exp m = map_option fst (powmod_run base exp m)"

text \<open>
  \<open>get_bit128\<close> and \<open>set_bit128\<close>: the two-word mask \<open>uint64_t mask[2]\<close> is the pair
  \<open>(mask[0], mask[1])\<close>. A shift \<open>1ULL << n\<close> with \<open>n \<ge> 64\<close> is undefined in C; every
  statement below keeps the bit position under 128, where the shift is defined.
\<close>

definition NUM_SIEVE_PRIMES :: nat where
  "NUM_SIEVE_PRIMES = 20"

definition SIEVE_PRIMES :: "u8 list" where
  "SIEVE_PRIMES = [2, 3, 5, 7, 11, 13, 17, 19, 23, 29, 31, 37, 41, 43, 47, 53, 59, 61, 67, 71]"

type_synonym mask128 = "u64 \<times> u64"

definition get_bit128 :: "mask128 \<Rightarrow> u32 \<Rightarrow> bool" where
  "get_bit128 msk b =
     (if b < 64 then (fst msk AND push_bit (unat b) 1) \<noteq> 0
      else (snd msk AND push_bit (unat (b - 64)) 1) \<noteq> 0)"

definition set_bit128 :: "mask128 \<Rightarrow> u32 \<Rightarrow> mask128" where
  "set_bit128 msk b =
     (if b < 64 then (fst msk OR push_bit (unat b) 1, snd msk)
      else (fst msk, snd msk OR push_bit (unat (b - 64)) 1))"

function residue_loop :: "u32 \<Rightarrow> u32 \<Rightarrow> u32 \<Rightarrow> mask128 \<Rightarrow> mask128 option" where
  "residue_loop r p z msk =
     (if r < p then
        (case powmod (ucast r) z (ucast p) of
           None \<Rightarrow> None
         | Some rz \<Rightarrow> residue_loop (r + 1) p z (set_bit128 msk (ucast rz)))
      else Some msk)"
  by pat_completeness auto
termination
proof (relation "measure (\<lambda>(r, p, z, msk). unat p - unat r)")
  show "wf (measure (\<lambda>(r, p, z, msk). unat p - unat r))"
    by simp
next
  fix r p z :: u32 and msk :: mask128 and x2 :: u64
  assume lt: "r < p"
  then have "unat r < unat p"
    by (simp add: word_less_nat_alt)
  moreover have "unat p < 2 ^ 32"
    using unsigned_less [of p, where ?'a = nat] by simp
  ultimately have "unat r < unat p \<and> unat (r + 1) = unat r + 1"
    by (simp add: unat_word_ariths)
  then show "((r + 1, p, z, set_bit128 msk (ucast x2)), (r, p, z, msk))
        \<in> measure (\<lambda>(r, p, z, msk). unat p - unat r)"
    by simp arith
qed

declare residue_loop.simps [simp del]

definition compute_residue_mask128 :: "u32 \<Rightarrow> u32 \<Rightarrow> mask128 option" where
  "compute_residue_mask128 p z = residue_loop 0 p z (0, 0)"


section \<open>Binary GCD (utility functions)\<close>

text \<open>
  \<open>__builtin_ctzll\<close> is the compiler's count of trailing zero bits of a 64-bit value
  (undefined for 0, where this model answers 64; \<open>gcd64\<close> never calls it with 0).
\<close>

fun ctz_aux :: "nat \<Rightarrow> u64 \<Rightarrow> nat" where
  "ctz_aux 0 w = 0"
| "ctz_aux (Suc n) w = (if bit w 0 then 0 else Suc (ctz_aux n (drop_bit 1 w)))"

definition builtin_ctzll :: "u64 \<Rightarrow> nat" where
  "builtin_ctzll w = ctz_aux 64 w"

text \<open>
  The \<open>do \<dots> while (b)\<close> loop of \<open>gcd64\<close>. Nothing in its text bounds the number of
  iterations (entered with \<open>a = 0\<close> it would not end), so it is a partial function: not
  returning is \<open>None\<close>, and that it does return is part of what is proved below.
\<close>

partial_function (option) gcd64_loop :: "u64 \<Rightarrow> u64 \<Rightarrow> u64 option" where
  "gcd64_loop a b =
     (let b1 = drop_bit (builtin_ctzll b) b;
          a2 = (if a > b1 then b1 else a);
          b2 = (if a > b1 then a else b1);
          b3 = b2 - a2
      in if b3 \<noteq> 0 then gcd64_loop a2 b3 else Some a2)"

definition gcd64 :: "u64 \<Rightarrow> u64 \<Rightarrow> u64 option" where
  "gcd64 a b =
     (if a = 0 then Some b
      else if b = 0 then Some a
      else
        (let shift = builtin_ctzll (a OR b);
             a1 = drop_bit (builtin_ctzll a) a
         in map_option (push_bit shift) (gcd64_loop a1 b)))"


section \<open>Exact verification (GMP)\<close>

text \<open>
  The verifier computes with GMP integers, which are unbounded: they are \<open>nat\<close> here.
  \<open>mpz_ui_pow_ui\<close> is the power and \<open>mpz_add\<close> the sum. The library function
  \<open>mpz_root (rop, op, n)\<close> sets \<open>rop\<close> to the truncated \<open>n\<close>-th root of \<open>op\<close> and returns
  non-zero iff \<open>op = rop ^ n\<close>; GMP raises a division by zero for \<open>n = 0\<close> (\<open>None\<close>). The
  truncated root is found here by a search downwards from \<open>op\<close>. \<open>mpz_fits_ulong_p\<close> and
  \<open>mpz_get_ui\<close> are those of a platform whose \<open>unsigned long\<close> has 64 bits, as the casts
  of the source take for granted.
\<close>

fun floor_root_from :: "nat \<Rightarrow> nat \<Rightarrow> nat \<Rightarrow> nat" where
  "floor_root_from n u 0 = 0"
| "floor_root_from n u (Suc r) = (if Suc r ^ n \<le> u then Suc r else floor_root_from n u r)"

definition mpz_root :: "nat \<Rightarrow> nat \<Rightarrow> (nat \<times> bool) option" where
  "mpz_root u n =
     (if n = 0 then None
      else (let rop = floor_root_from n u u in Some (rop, rop ^ n = u)))"

definition mpz_fits_ulong_p :: "nat \<Rightarrow> bool" where
  "mpz_fits_ulong_p v = (v < 2 ^ 64)"

definition mpz_get_ui :: "nat \<Rightarrow> u64" where
  "mpz_get_ui v = word_of_nat v"

text \<open>
  \<open>check_beal_hit_gmp\<close> writes through the pointers \<open>out_C\<close> and \<open>out_gcd\<close>. The model
  takes the contents of the two cells before the call (the pair \<open>out\<close>) and returns them
  after the call, beside the \<open>bool\<close> result.
\<close>

definition check_beal_hit_gmp ::
  "u64 \<Rightarrow> u64 \<Rightarrow> u32 \<Rightarrow> u32 \<Rightarrow> u32 \<Rightarrow> u64 \<Rightarrow> u64 \<times> u64 \<Rightarrow> (bool \<times> u64 \<times> u64) option" where
  "check_beal_hit_gmp A B x y z C_max out =
     (let ax = unat A ^ unat x;
          by = unat B ^ unat y;
          sum = ax + by
      in case mpz_root sum (unat z) of
           None \<Rightarrow> None
         | Some (root, is_perfect) \<Rightarrow>
             if is_perfect then
               if mpz_fits_ulong_p root then
                 (let C = mpz_get_ui root
                  in if C \<le> C_max \<and> C > 0 then
                       (case gcd64 B C of
                          None \<Rightarrow> None
                        | Some g1 \<Rightarrow>
                            (case gcd64 A g1 of
                               None \<Rightarrow> None
                             | Some g \<Rightarrow> Some (True, C, g)))
                     else Some (False, out))
               else Some (False, out)
             else Some (False, out))"


section \<open>Control and memory\<close>

text \<open>
  A read \<open>a[i]\<close> of a heap array is \<open>nth_opt\<close>: outside the allocated cells it is
  undefined behaviour in C and \<open>None\<close> here.
\<close>

definition nth_opt :: "'a list \<Rightarrow> nat \<Rightarrow> 'a option" where
  "nth_opt xs i = (if i < length xs then Some (xs ! i) else None)"

fun fold_opt :: "('a \<Rightarrow> 's \<Rightarrow> 's option) \<Rightarrow> 'a list \<Rightarrow> 's \<Rightarrow> 's option" where
  "fold_opt f [] s = Some s"
| "fold_opt f (x # xs) s = Option.bind (f x s) (fold_opt f xs)"

text \<open>
  \<open>for_le step v hi body\<close> is the C loop
  \<^verbatim>\<open>for (uint64_t v = ...; v <= hi; v += step) body\<close>
  on a 64-bit counter. The counter wraps: with \<open>hi = 2^64 - 1\<close> the test never fails.
  The loop is therefore a partial function, \<open>None\<close> when it does not return (or when
  its body does not).
\<close>

partial_function (option) for_le ::
  "u64 \<Rightarrow> u64 \<Rightarrow> u64 \<Rightarrow> (u64 \<Rightarrow> 's \<Rightarrow> 's option) \<Rightarrow> 's \<Rightarrow> 's option" where
  "for_le step v hi body s =
     (if v \<le> hi then Option.bind (body v s) (for_le step (v + step) hi body) else Some s)"

section \<open>Residue precomputation (precompute\_create)\<close>

text \<open>
  The struct \<open>PrecomputedData\<close>. The fields \<open>x\<close>, \<open>y\<close>, \<open>z\<close>, \<open>A_max\<close>, \<open>B_max\<close> carry the
  prefix \<open>pd_\<close>. The tables are lists: \<open>ax_mod ! A ! i\<close> and \<open>by_mod ! i ! B\<close>. A table is
  filled in index order, so the loop that fills it appends. Every \<open>malloc\<close> is taken to
  succeed (where one fails, the C function returns \<open>NULL\<close> or stops at the first write).
\<close>

record PrecomputedData =
  pd_x :: u32
  pd_y :: u32
  pd_z :: u32
  residue_masks :: "mask128 list"
  ax_mod :: "u8 list list"
  by_mod :: "u8 list list"
  pd_A_max :: u64
  pd_B_max :: u64

definition ax_mod_row :: "u32 \<Rightarrow> u64 \<Rightarrow> u8 list option" where
  "ax_mod_row x A =
     those (map (\<lambda>i. map_option ucast (powmod A x (ucast (SIEVE_PRIMES ! i))))
                [0..<NUM_SIEVE_PRIMES])"

definition by_mod_row :: "u32 \<Rightarrow> u64 \<Rightarrow> nat \<Rightarrow> u8 list option" where
  "by_mod_row y B_max i =
     (let p = (ucast (SIEVE_PRIMES ! i) :: u32)
      in for_le 1 0 B_max
           (\<lambda>B row. map_option (\<lambda>v. row @ [ucast v]) (powmod B y (ucast p))) [])"

definition precompute_create ::
  "u32 \<Rightarrow> u32 \<Rightarrow> u32 \<Rightarrow> u64 \<Rightarrow> u64 \<Rightarrow> PrecomputedData option" where
  "precompute_create x y z A_max B_max = do {
     masks \<leftarrow> those (map (\<lambda>i. compute_residue_mask128 (ucast (SIEVE_PRIMES ! i)) z)
                          [0..<NUM_SIEVE_PRIMES]);
     ax \<leftarrow> for_le 1 0 A_max (\<lambda>A rows. map_option (\<lambda>row. rows @ [row]) (ax_mod_row x A)) [];
     by \<leftarrow> those (map (by_mod_row y B_max) [0..<NUM_SIEVE_PRIMES]);
     Some \<lparr> pd_x = x, pd_y = y, pd_z = z, residue_masks = masks, ax_mod = ax, by_mod = by,
            pd_A_max = A_max, pd_B_max = B_max \<rparr>
   }"

section \<open>The sieve (sieve.c)\<close>

text \<open>
  \<open>sieve_sum\<close> is the common text of both sieve paths:
  \<^verbatim>\<open>uint32_t sum = ax + by; if (sum >= p) sum -= p;\<close>
\<close>

definition sieve_sum :: "u32 \<Rightarrow> u8 \<Rightarrow> u8 \<Rightarrow> u32" where
  "sieve_sum p ax by =
     (let sum = (ucast ax + ucast by :: u32) in if sum \<ge> p then sum - p else sum)"

fun sieve_scalar_loop :: "nat list \<Rightarrow> u64 \<Rightarrow> u64 \<Rightarrow> PrecomputedData \<Rightarrow> bool option" where
  "sieve_scalar_loop [] A B data = Some True"
| "sieve_scalar_loop (i # is) A B data = do {
     let p = (ucast (SIEVE_PRIMES ! i) :: u32);
     ax_row \<leftarrow> nth_opt (ax_mod data) (unat A);
     ax \<leftarrow> nth_opt ax_row i;
     by_row \<leftarrow> nth_opt (by_mod data) i;
     by \<leftarrow> nth_opt by_row (unat B);
     msk \<leftarrow> nth_opt (residue_masks data) i;
     if \<not> get_bit128 msk (sieve_sum p ax by) then Some False
     else sieve_scalar_loop is A B data
   }"

definition sieve_survives_scalar :: "u64 \<Rightarrow> u64 \<Rightarrow> PrecomputedData \<Rightarrow> bool option" where
  "sieve_survives_scalar A B data = sieve_scalar_loop [0..<NUM_SIEVE_PRIMES] A B data"

definition avx2_lane ::
  "u64 \<Rightarrow> PrecomputedData \<Rightarrow> u32 \<Rightarrow> u8 \<Rightarrow> u8 list \<Rightarrow> mask128 \<Rightarrow> nat \<Rightarrow> u8 \<Rightarrow> u8 option" where
  "avx2_lane B_start data p ax by_row msk l survivors =
     (if survivors AND push_bit l 1 = 0 then Some survivors
      else
        (let B = B_start + word_of_nat l
         in if B > pd_B_max data then Some (survivors AND NOT (push_bit l 1))
            else do {
              by \<leftarrow> nth_opt by_row (unat B);
              if \<not> get_bit128 msk (sieve_sum p ax by)
              then Some (survivors AND NOT (push_bit l 1))
              else Some survivors
            }))"

fun avx2_prime_loop :: "nat list \<Rightarrow> u64 \<Rightarrow> u64 \<Rightarrow> PrecomputedData \<Rightarrow> u8 \<Rightarrow> u8 option" where
  "avx2_prime_loop [] A B_start data survivors = Some survivors"
| "avx2_prime_loop (i # is) A B_start data survivors = do {
     let p = (ucast (SIEVE_PRIMES ! i) :: u32);
     ax_row \<leftarrow> nth_opt (ax_mod data) (unat A);
     ax \<leftarrow> nth_opt ax_row i;
     by_row \<leftarrow> nth_opt (by_mod data) i;
     msk \<leftarrow> nth_opt (residue_masks data) i;
     survivors' \<leftarrow> fold_opt (avx2_lane B_start data p ax by_row msk) [0..<8] survivors;
     if survivors' = 0 then Some survivors'
     else avx2_prime_loop is A B_start data survivors'
   }"

definition sieve_survives_avx2_8 :: "u64 \<Rightarrow> u64 \<Rightarrow> PrecomputedData \<Rightarrow> u8 option" where
  "sieve_survives_avx2_8 A B_start data =
     avx2_prime_loop [0..<NUM_SIEVE_PRIMES] A B_start data 255"

definition count_sieve_survivors ::
  "u64 \<Rightarrow> u64 \<Rightarrow> u64 \<Rightarrow> u64 \<Rightarrow> PrecomputedData \<Rightarrow> u64 option" where
  "count_sieve_survivors A_start A_end B_start B_end data =
     for_le 1 A_start A_end
       (\<lambda>A. for_le 1 B_start B_end
          (\<lambda>B count. do {
             g \<leftarrow> gcd64 A B;
             if g = 1 then do {
               survives \<leftarrow> sieve_survives_scalar A B data;
               Some (if survives then count + 1 else count)
             } else Some count
           }))
       0"

section \<open>Notions used in the statements\<close>

text \<open>
  \<open>word_range lo hi\<close> lists the 64-bit values from \<open>lo\<close> to \<open>hi\<close> in increasing order:
  the values a counter takes in \<open>for (v = lo; v <= hi; v++)\<close> when \<open>hi < 2^64 - 1\<close>.
\<close>

definition word_range :: "u64 \<Rightarrow> u64 \<Rightarrow> u64 list" where
  "word_range lo hi = map word_of_nat [unat lo ..< Suc (unat hi)]"


text \<open>
  The decision rule of the sieve for the prime of index \<open>i\<close>: the residue of
  \<open>A^x + B^y\<close> modulo that prime is the residue of a \<open>z\<close>-th power.
\<close>

definition sieve_admits :: "u32 \<Rightarrow> u32 \<Rightarrow> u32 \<Rightarrow> u64 \<Rightarrow> u64 \<Rightarrow> nat \<Rightarrow> bool" where
  "sieve_admits x y z A B i =
     (let p = unat (SIEVE_PRIMES ! i)
      in \<exists>s<p. s ^ unat z mod p = (unat A ^ unat x + unat B ^ unat y) mod p)"

section \<open>Parameters, hits and results\<close>

text \<open>
  The structs \<open>SearchParams\<close>, \<open>BealHit\<close> and \<open>SearchResults\<close>. Fields that would clash
  with the variables of the statements carry a prefix (\<open>sp_\<close>, \<open>hit_\<close>). \<open>log_path\<close> is
  \<open>None\<close> for the null pointer. The hit array is the list \<open>hits\<close> (\<open>hits_count\<close> is its
  length) beside \<open>hits_capacity\<close>; the two floating-point fields of \<open>SearchResults\<close> are left out.
\<close>

record SearchParams =
  sp_x :: u32
  sp_y :: u32
  sp_z :: u32
  sp_A_start :: u64
  sp_A_max :: u64
  sp_B_start :: u64
  sp_B_max :: u64
  sp_C_max :: u64
  num_threads :: int
  progress_interval :: int
  log_path :: "string option"

record BealHit =
  hit_A :: u64
  hit_B :: u64
  hit_C :: u64
  hit_gcd :: u64
  hit_x :: u32
  hit_y :: u32
  hit_z :: u32

record SearchResults =
  total_pairs :: u64
  gcd_filtered :: u64
  mod_filtered :: u64
  exact_checks :: u64
  power_hits :: u64
  primitive_hits :: u64
  hits :: "BealHit list"
  hits_capacity :: u64

section \<open>The COMPLETE record (log\_complete)\<close>

text \<open>
  \<open>integrity_hash\<close> is the local variable \<open>hash\<close> of \<open>log_complete\<close> at the \<open>fprintf\<close>,
  statement by statement. \<open>printf_016x64\<close> is the conversion \<^verbatim>\<open>"%016" PRIx64\<close>
  of the C library: at least 16 digits, padded with zeros, lowercase, and a 64-bit value
  never needs more than 16. \<open>log_complete\<close> returns before anything is written when
  \<open>path\<close> is null and when \<open>fopen (path, "a")\<close> fails; \<open>fopen_ok path\<close> says whether that
  call returns a stream. \<open>log_complete_integrity_hash\<close> is the \<open>integrity_hash\<close> field of
  the record written, \<open>None\<close> when no record is written.
\<close>

definition integrity_hash :: "SearchParams \<Rightarrow> SearchResults \<Rightarrow> u64" where
  "integrity_hash params results =
     (let hash = (14695981039346656037 :: u64);
          FNV_PRIME = (1099511628211 :: u64);
          hash = hash XOR ucast (sp_x params);
          hash = hash * FNV_PRIME;
          hash = hash XOR ucast (sp_y params);
          hash = hash * FNV_PRIME;
          hash = hash XOR ucast (sp_z params);
          hash = hash * FNV_PRIME;
          hash = hash XOR sp_A_start params;
          hash = hash * FNV_PRIME;
          hash = hash XOR sp_A_max params;
          hash = hash * FNV_PRIME;
          hash = hash XOR sp_B_start params;
          hash = hash * FNV_PRIME;
          hash = hash XOR sp_B_max params;
          hash = hash * FNV_PRIME;
          hash = hash XOR sp_C_max params;
          hash = hash * FNV_PRIME;
          hash = hash XOR total_pairs results;
          hash = hash * FNV_PRIME;
          hash = hash XOR gcd_filtered results;
          hash = hash * FNV_PRIME;
          hash = hash XOR mod_filtered results;
          hash = hash * FNV_PRIME;
          hash = hash XOR exact_checks results;
          hash = hash * FNV_PRIME;
          hash = hash XOR power_hits results;
          hash = hash * FNV_PRIME;
          hash = hash XOR primitive_hits results;
          hash = hash * FNV_PRIME
      in hash)"

definition hex_digit :: "nat \<Rightarrow> char" where
  "hex_digit d = ''0123456789abcdef'' ! d"

definition printf_016x64 :: "u64 \<Rightarrow> string" where
  "printf_016x64 w = map (\<lambda>i. hex_digit (unat (drop_bit (4 * i) w AND 15))) (rev [0..<16])"

definition log_complete_integrity_hash ::
  "(string \<Rightarrow> bool) \<Rightarrow> SearchParams \<Rightarrow> SearchResults \<Rightarrow> string option" where
  "log_complete_integrity_hash fopen_ok params results =
     (case log_path params of
        None \<Rightarrow> None
      | Some path \<Rightarrow>
          if \<not> fopen_ok path then None
          else Some (printf_016x64 (integrity_hash params results)))"

text \<open>
  The digest in the words of the specification: FNV-1a over 64-bit quantities, each
  absorbed by an exclusive or followed by a multiplication with the FNV prime, from
  the offset basis. \<open>read_hex\<close> reads a string of lowercase hexadecimal digits back.
\<close>

definition fnv1a_absorb :: "u64 \<Rightarrow> u64 \<Rightarrow> u64" where
  "fnv1a_absorb h v = (h XOR v) * 0x100000001B3"

definition fnv1a64 :: "u64 list \<Rightarrow> u64" where
  "fnv1a64 vs = foldl fnv1a_absorb 0xCBF29CE484222325 vs"

definition hex_value :: "char \<Rightarrow> nat option" where
  "hex_value c =
     map_of (zip ''0123456789abcdef'' [0, 1, 2, 3, 4, 5, 6, 7, 8, 9, 10, 11, 12, 13, 14, 15]) c"

fun read_hex :: "string \<Rightarrow> nat \<Rightarrow> nat option" where
  "read_hex [] acc = Some acc"
| "read_hex (c # cs) acc =
     (case hex_value c of None \<Rightarrow> None | Some d \<Rightarrow> read_hex cs (16 * acc + d))"


section \<open>The search driver (search\_parallel) and main\<close>

text \<open>
  \<open>results_init\<close> and \<open>results_add_hit\<close>. The hit array holds \<open>hits_capacity\<close> elements
  of \<open>sizeof (BealHit) = 48\<close> bytes. \<open>results_add_hit\<close> doubles the capacity when the
  array is full and then writes \<open>hits[hits_count]\<close>. The write is defined only inside the
  block, and \<open>realloc\<close> is given the size it needs only while
  \<open>hits_capacity * sizeof (BealHit)\<close> fits into \<open>size_t\<close>; otherwise the result is \<open>None\<close>.
  The code does not test what \<open>malloc\<close> and \<open>realloc\<close> return here; they are taken to
  return a block.
\<close>

definition results_init :: SearchResults where
  "results_init =
     \<lparr> total_pairs = 0, gcd_filtered = 0, mod_filtered = 0, exact_checks = 0,
       power_hits = 0, primitive_hits = 0, hits = [], hits_capacity = 64 \<rparr>"

definition sizeof_BealHit :: nat where
  "sizeof_BealHit = 48"

definition results_add_hit :: "SearchResults \<Rightarrow> BealHit \<Rightarrow> SearchResults option" where
  "results_add_hit results hit =
     (let results =
            (if length (hits results) \<ge> unat (hits_capacity results)
             then results\<lparr> hits_capacity := hits_capacity results * 2 \<rparr>
             else results)
      in if length (hits results) < unat (hits_capacity results)
            \<and> unat (hits_capacity results) * sizeof_BealHit < 2 ^ 64
         then Some (results\<lparr> hits := hits results @ [hit] \<rparr>)
         else None)"

text \<open>
  The state of the search: the four atomic counters, the four counters of the current
  \<open>A\<close>, the worker's buffer \<open>local_hits\<close> (\<open>local_hit_count\<close> is its length), the results
  structure, and the \<open>COUNTEREXAMPLE\<close> lines printed so far (\<open>announced\<close>, one per line,
  as the hit it reports). The model runs the iterations of the \<open>A\<close> loop in one worker,
  in increasing order. Writes to the log file (\<open>log_start\<close>, \<open>log_checkpoint\<close>, \<open>log_hit\<close>),
  the progress line and the timing touch none of these and are left out.
\<close>

record SearchState =
  global_tested :: u64
  global_gcd_skips :: u64
  global_mod_skips :: u64
  global_exact_checks :: u64
  a_tested :: u64
  a_gcd :: u64
  a_mod :: u64
  a_exact :: u64
  local_hits :: "BealHit list"
  the_results :: SearchResults
  announced :: "BealHit list"

definition flush_local_hits :: "SearchState \<Rightarrow> SearchResults option" where
  "flush_local_hits st =
     fold_opt (\<lambda>hit results. results_add_hit results hit) (local_hits st) (the_results st)"

definition make_hit :: "SearchParams \<Rightarrow> u64 \<Rightarrow> u64 \<Rightarrow> u64 \<Rightarrow> u64 \<Rightarrow> BealHit" where
  "make_hit params A B C g =
     \<lparr> hit_A = A, hit_B = B, hit_C = C, hit_gcd = g,
       hit_x = sp_x params, hit_y = sp_y params, hit_z = sp_z params \<rparr>"

definition announce :: "BealHit \<Rightarrow> SearchState \<Rightarrow> SearchState" where
  "announce hit st =
     (if hit_gcd hit = 1 then st\<lparr> announced := announced st @ [hit] \<rparr> else st)"

text \<open>
  One pair on the scalar path (the body of the \<open>B\<close> loop without \<open>HAVE_AVX2\<close>) and on the
  8-lane path (the body of the lane loop). The variables \<open>C\<close> and \<open>g\<close> are not
  initialised before the call of the verifier; they are read only after a call that
  returned true and so wrote them, and the model starts them at 0.
\<close>

definition search_pair_scalar ::
  "SearchParams \<Rightarrow> PrecomputedData \<Rightarrow> u64 \<Rightarrow> u64 \<Rightarrow> SearchState \<Rightarrow> SearchState option" where
  "search_pair_scalar params data A B st = do {
     let st = st\<lparr> a_tested := a_tested st + 1 \<rparr>;
     d \<leftarrow> gcd64 A B;
     if d > 1 then Some (st\<lparr> a_gcd := a_gcd st + 1 \<rparr>)
     else do {
       survives \<leftarrow> sieve_survives_scalar A B data;
       if \<not> survives then Some (st\<lparr> a_mod := a_mod st + 1 \<rparr>)
       else do {
         let st = st\<lparr> a_exact := a_exact st + 1 \<rparr>;
         (found, C, g) \<leftarrow> check_beal_hit_gmp A B (sp_x params) (sp_y params) (sp_z params)
                            (sp_C_max params) (0, 0);
         if found then
           (let hit = make_hit params A B C g;
                st = (if length (local_hits st) < 64
                      then st\<lparr> local_hits := local_hits st @ [hit] \<rparr>
                      else st)
            in Some (announce hit st))
         else Some st
       }
     }
   }"

definition search_pair_avx2 ::
  "SearchParams \<Rightarrow> u64 \<Rightarrow> u64 \<Rightarrow> u8 \<Rightarrow> nat \<Rightarrow> SearchState \<Rightarrow> SearchState option" where
  "search_pair_avx2 params A B_val survivors lane st = do {
     let st = st\<lparr> a_tested := a_tested st + 1 \<rparr>;
     d \<leftarrow> gcd64 A B_val;
     if d > 1 then Some (st\<lparr> a_gcd := a_gcd st + 1 \<rparr>)
     else if survivors AND push_bit lane 1 = 0 then Some (st\<lparr> a_mod := a_mod st + 1 \<rparr>)
     else do {
       let st = st\<lparr> a_exact := a_exact st + 1 \<rparr>;
       (found, C, g) \<leftarrow> check_beal_hit_gmp A B_val (sp_x params) (sp_y params) (sp_z params)
                          (sp_C_max params) (0, 0);
       if found then do {
         let hit = make_hit params A B_val C g;
         st \<leftarrow> (if length (local_hits st) < 64
                then Some (st\<lparr> local_hits := local_hits st @ [hit] \<rparr>)
                else do {
                  results \<leftarrow> flush_local_hits st;
                  Some (st\<lparr> the_results := results, local_hits := [hit] \<rparr>)
                });
         Some (announce hit st)
       } else Some st
     }
   }"

text \<open>
  \<^verbatim>\<open>for (int lane = 0; lane < 8 && B + lane <= B_max; lane++)\<close>: the loop leaves at the
  first lane beyond \<open>B_max\<close>.
\<close>

fun search_lanes ::
  "nat list \<Rightarrow> SearchParams \<Rightarrow> u64 \<Rightarrow> u64 \<Rightarrow> u8 \<Rightarrow> SearchState \<Rightarrow> SearchState option" where
  "search_lanes [] params A B survivors st = Some st"
| "search_lanes (lane # lanes) params A B survivors st =
     (if B + word_of_nat lane \<le> sp_B_max params then do {
        st \<leftarrow> search_pair_avx2 params A (B + word_of_nat lane) survivors lane st;
        search_lanes lanes params A B survivors st
      } else Some st)"

text \<open>
  One iteration of the \<open>A\<close> loop; \<open>have_avx2\<close> says which of the two \<open>#ifdef\<close> branches
  was compiled.
\<close>

definition search_A ::
  "bool \<Rightarrow> SearchParams \<Rightarrow> PrecomputedData \<Rightarrow> u64 \<Rightarrow> SearchState \<Rightarrow> SearchState option" where
  "search_A have_avx2 params data A st = do {
     let st = st\<lparr> a_tested := 0, a_gcd := 0, a_mod := 0, a_exact := 0 \<rparr>;
     st \<leftarrow> (if have_avx2
            then for_le 8 (sp_B_start params) (sp_B_max params)
                   (\<lambda>B st. do {
                      survivors \<leftarrow> sieve_survives_avx2_8 A B data;
                      search_lanes [0..<8] params A B survivors st
                    }) st
            else for_le 1 (sp_B_start params) (sp_B_max params)
                   (search_pair_scalar params data A) st);
     Some (st\<lparr> global_tested := global_tested st + a_tested st,
               global_gcd_skips := global_gcd_skips st + a_gcd st,
               global_mod_skips := global_mod_skips st + a_mod st,
               global_exact_checks := global_exact_checks st + a_exact st \<rparr>)
   }"

definition search_init :: "SearchResults \<Rightarrow> SearchState" where
  "search_init results =
     \<lparr> global_tested = 0, global_gcd_skips = 0, global_mod_skips = 0, global_exact_checks = 0,
       a_tested = 0, a_gcd = 0, a_mod = 0, a_exact = 0,
       local_hits = [], the_results = results, announced = [] \<rparr>"

definition count_primitive :: "BealHit list \<Rightarrow> u64" where
  "count_primitive hs = foldl (\<lambda>n h. if hit_gcd h = 1 then n + 1 else n) 0 hs"

text \<open>
  \<open>search_parallel\<close> returns the results structure and the lines announced.
  \<open>alloc_ok = False\<close> is the run in which \<open>precompute_create\<close> returns \<open>NULL\<close> (an
  allocation failed): the function then returns at once, with the results as
  \<open>results_init\<close> left them.
\<close>

definition search_parallel ::
  "bool \<Rightarrow> bool \<Rightarrow> SearchParams \<Rightarrow> (SearchResults \<times> BealHit list) option" where
  "search_parallel have_avx2 alloc_ok params =
     (let results = results_init
      in if \<not> alloc_ok then Some (results, [])
         else do {
           data \<leftarrow> precompute_create (sp_x params) (sp_y params) (sp_z params)
                     (sp_A_max params) (sp_B_max params);
           st \<leftarrow> for_le 1 (sp_A_start params) (sp_A_max params)
                   (search_A have_avx2 params data) (search_init results);
           results \<leftarrow> (if length (local_hits st) > 0 then flush_local_hits st
                        else Some (the_results st));
           let results = results\<lparr> total_pairs := global_tested st,
                                   gcd_filtered := global_gcd_skips st,
                                   mod_filtered := global_mod_skips st,
                                   exact_checks := global_exact_checks st \<rparr>;
           let results = results\<lparr> power_hits := word_of_nat (length (hits results)) \<rparr>;
           let results = results\<lparr> primitive_hits := count_primitive (hits results) \<rparr>;
           Some (results, announced st)
         })"

text \<open>
  \<open>main\<close> after the options are parsed into \<open>params\<close> and \<open>do_validate\<close>: the exit code
  and, when the search ran, what it returned. \<open>validation_status\<close> stands for the value
  of \<open>run_validation ()\<close>, which \<open>main\<close> returns under \<open>--validate\<close> before it looks at
  the parameters. The default name of the log file, which \<open>main\<close> fills in before the
  search, only tells the log writes where to write and is left out with them.
\<close>

definition main_run ::
  "bool \<Rightarrow> bool \<Rightarrow> bool \<Rightarrow> int \<Rightarrow> SearchParams
     \<Rightarrow> (int \<times> (SearchResults \<times> BealHit list) option) option" where
  "main_run have_avx2 alloc_ok do_validate validation_status params =
     (if do_validate then Some (validation_status, None)
      else if sp_x params < 3 \<or> sp_y params < 3 \<or> sp_z params < 3 then Some (1, None)
      else if sp_A_start params < 1 \<or> sp_B_start params < 1 then Some (1, None)
      else if sp_A_max params < sp_A_start params \<or> sp_B_max params < sp_B_start params
      then Some (1, None)
      else do {
        (results, notices) \<leftarrow> search_parallel have_avx2 alloc_ok params;
        Some (if primitive_hits results > 0 then 42 else 0, Some (results, notices))
      })"

text \<open>
  Invariants of the search: the counters of the current \<open>A\<close> and the atomic counters
  each split the pairs tested into the three outcomes; the hit array stays inside its
  block; every hit kept has gcd 1 and hits are kept exactly when one was announced.
\<close>

definition a_counters_ok :: "SearchState \<Rightarrow> bool" where
  "a_counters_ok st = (a_gcd st + a_mod st + a_exact st = a_tested st)"

definition global_counters_ok :: "SearchState \<Rightarrow> bool" where
  "global_counters_ok st =
     (global_gcd_skips st + global_mod_skips st + global_exact_checks st = global_tested st)"

definition capacity_ok :: "SearchResults \<Rightarrow> bool" where
  "capacity_ok results =
     (length (hits results) \<le> unat (hits_capacity results)
      \<and> unat (hits_capacity results) * sizeof_BealHit < 2 ^ 64)"

definition stored_hits :: "SearchState \<Rightarrow> BealHit list" where
  "stored_hits st = hits (the_results st) @ local_hits st"

definition hits_ok :: "SearchState \<Rightarrow> bool" where
  "hits_ok st =
     (list_all (\<lambda>h. hit_gcd h = 1) (stored_hits st)
      \<and> (announced st = [] \<longleftrightarrow> stored_hits st = [])
      \<and> capacity_ok (the_results st))"

text \<open>
  On the scalar path the results structure is not touched before the final merge and
  the buffer never holds more than its 64 entries.
\<close>

definition scalar_buffer_ok :: "SearchState \<Rightarrow> bool" where
  "scalar_buffer_ok st = (the_results st = results_init \<and> length (local_hits st) \<le> 64)"

text \<open>
  \<open>counted_once st st'\<close>: from \<open>st\<close> to \<open>st'\<close> the count of pairs tested went up by one, and so
  did exactly one of the three outcome counters, the other two unchanged.
\<close>

definition counted_once :: "SearchState \<Rightarrow> SearchState \<Rightarrow> bool" where
  "counted_once st st' =
     (a_tested st' = a_tested st + 1
      \<and> ((a_gcd st' = a_gcd st + 1 \<and> a_mod st' = a_mod st \<and> a_exact st' = a_exact st)
         \<or> (a_gcd st' = a_gcd st \<and> a_mod st' = a_mod st + 1 \<and> a_exact st' = a_exact st)
         \<or> (a_gcd st' = a_gcd st \<and> a_mod st' = a_mod st \<and> a_exact st' = a_exact st + 1)))"

text \<open>
  A small search, used as an example: cubes, with \<open>A\<close> and \<open>B\<close> from 1 to 2.
\<close>

definition example_params :: SearchParams where
  "example_params =
     \<lparr> sp_x = 3, sp_y = 3, sp_z = 3, sp_A_start = 1, sp_A_max = 2, sp_B_start = 1,
       sp_B_max = 2, sp_C_max = 1000, num_threads = 1, progress_interval = 0,
       log_path = None \<rparr>"

section \<open>Auxiliary facts\<close>

lemma even_unat_word: "even (unat (e::'a::len word)) = even e"
proof -
  have "bit (unat e) 0 = bit e 0"
    by (simp only: bit_unsigned_iff) simp
  then show ?thesis by (simp add: bit_0)
qed

lemma odd_word_and1: "(e AND 1 \<noteq> 0) = odd (unat (e::u32))"
  using even_word_iff [of e] by (simp add: even_word_def even_unat_word)

lemma small_prod:
  fixes a b m :: nat
  assumes "m \<le> 2 ^ 32" "a < m \<or> a = 1" "b < m"
  shows "a * b < 2 ^ 64"
proof -
  have a: "a \<le> 2 ^ 32" and b: "b < 2 ^ 32" using assms by auto
  have "a * b \<le> 2 ^ 32 * b" using a by simp
  also have "\<dots> < 2 ^ 32 * 2 ^ 32" using b by simp
  finally show ?thesis by simp
qed

lemma unat_mulmod:
  fixes a b m :: u64
  assumes "unat a * unat b < 2 ^ 64"
  shows "unat ((a * b) mod m) = (unat a * unat b) mod unat m"
  using assms by (simp add: unat_mod unat_mult_lem [THEN iffD1])

lemma pow_split_nat: "(b::nat) ^ e = b ^ (e mod 2) * (b * b) ^ (e div 2)"
proof -
  have "b ^ e = b ^ (e mod 2 + 2 * (e div 2))" by simp
  also have "\<dots> = b ^ (e mod 2) * (b * b) ^ (e div 2)"
    by (simp only: power_add power_mult power2_eq_square)
  finally show ?thesis .
qed

lemma powmod_loop_0 [simp]: "powmod_loop result base 0 m ovf = (result, ovf)"
  by (simp add: powmod_loop.simps [of result base 0])

lemma powmod_loop_unat:
  assumes "0 < unat m" "unat m \<le> 2 ^ 32" "unat base < unat m"
    "unat result < unat m \<or> unat result = 1"
  shows "powmod_loop result base exp m ovf =
          (if exp = 0 then result
           else word_of_nat ((unat result * unat base ^ unat exp) mod unat m), ovf)"
  using assms(3,4)
proof (induction "unat exp" arbitrary: result base exp rule: less_induct)
  case less
  note m0 = assms(1) and m32 = assms(2)
  show ?case
  proof (cases "exp = 0")
    case True
    then show ?thesis by simp
  next
    case False
    then have pos: "0 < exp" by (simp add: word_greater_zero_iff)
    have e0: "unat exp \<noteq> 0" using False by (simp add: unat_eq_0)
    define result' where "result' = (if exp AND 1 \<noteq> 0 then (result * base) mod m else result)"
    define base' where "base' = (base * base) mod m"
    define exp' where "exp' = drop_bit 1 exp"
    have rb: "unat result * unat base < 2 ^ 64"
      using small_prod [OF m32 less.prems(2) less.prems(1)] .
    have bb: "unat base * unat base < 2 ^ 64"
      using small_prod [OF m32 _ less.prems(1), of "unat base"] less.prems(1) by simp
    have ur: "unat result' = (if odd (unat exp) then (unat result * unat base) mod unat m else unat result)"
      by (simp add: result'_def odd_word_and1 unat_mulmod [OF rb])
    have ub: "unat base' = (unat base * unat base) mod unat m"
      by (simp add: base'_def unat_mulmod [OF bb])
    have ue: "unat exp' = unat exp div 2"
      by (simp add: exp'_def drop_bit_eq_div unat_div)
    have step: "powmod_loop result base exp m ovf = powmod_loop result' base' exp' m ovf"
      using pos rb bb
      by (simp add: powmod_loop.simps [of result base exp] result'_def base'_def exp'_def Let_def
          not_le [symmetric])
    have b'lt: "unat base' < unat m" using m0 by (simp add: ub)
    have r'lt: "unat result' < unat m \<or> unat result' = 1"
      using m0 less.prems by (auto simp: ur)
    have lt: "unat exp' < unat exp" using e0 by (simp add: ue)
    have IH: "powmod_loop result' base' exp' m ovf =
          (if exp' = 0 then result'
           else word_of_nat ((unat result' * unat base' ^ unat exp') mod unat m), ovf)"
      by (rule less.hyps [OF lt b'lt r'lt])
    have split: "unat base ^ unat exp = unat base ^ (unat exp mod 2) * (unat base * unat base) ^ unat exp'"
      unfolding ue by (rule pow_split_nat)
    have key: "unat result' * unat base' ^ unat exp' mod unat m
          = unat result * unat base ^ unat exp mod unat m"
    proof -
      have A: "unat base' ^ unat exp' mod unat m = (unat base * unat base) ^ unat exp' mod unat m"
        by (simp add: ub power_mod)
      have B: "unat result' mod unat m = unat result * unat base ^ (unat exp mod 2) mod unat m"
        by (cases "odd (unat exp)") (simp_all add: ur odd_iff_mod_2_eq_one)
      have "unat result' * unat base' ^ unat exp' mod unat m
           = (unat result' mod unat m) * (unat base' ^ unat exp' mod unat m) mod unat m"
        by (simp only: mod_mult_eq)
      also have "\<dots> = (unat result * unat base ^ (unat exp mod 2) mod unat m)
              * ((unat base * unat base) ^ unat exp' mod unat m) mod unat m"
        by (simp only: A B)
      also have "\<dots> = (unat result * unat base ^ (unat exp mod 2))
              * ((unat base * unat base) ^ unat exp') mod unat m"
        by (simp only: mod_mult_eq)
      finally show ?thesis by (simp only: split mult.assoc)
    qed
    show ?thesis
    proof (cases "exp' = 0")
      case True
      then have "unat exp div 2 = 0" using ue by simp
      with e0 have e1: "unat exp = 1" by (simp add: div_eq_0_iff)
      have "word_of_nat (unat result') = result'" by simp
      moreover have "unat result' = unat result * unat base ^ unat exp mod unat m"
        by (simp add: ur e1)
      ultimately show ?thesis
        using True False by (simp add: step IH del: of_nat_unat)
    next
      case False
      then show ?thesis
        using \<open>exp \<noteq> 0\<close> by (simp add: step IH key)
    qed
  qed
qed


lemma powmod_small:
  assumes "1 \<le> unat m" "unat m \<le> 2 ^ 32" "2 \<le> unat m \<or> 1 \<le> unat exp"
  shows "powmod_run base exp m = Some (word_of_nat (unat base ^ unat exp mod unat m), False)"
    and "powmod base exp m = Some (word_of_nat (unat base ^ unat exp mod unat m))"
proof -
  have m0: "0 < unat m" using assms(1) by simp
  then have mne: "m \<noteq> 0" by (simp add: unat_gt_0)
  have b: "unat (base mod m) < unat m" using m0 by (simp add: unat_mod)
  have r: "unat (1::u64) < unat m \<or> unat (1::u64) = 1" by simp
  have loop: "powmod_loop 1 (base mod m) exp m False =
          (if exp = 0 then 1
           else word_of_nat ((unat (1::u64) * unat (base mod m) ^ unat exp) mod unat m), False)"
    by (rule powmod_loop_unat [OF m0 assms(2) b r])
  have val: "(if exp = 0 then (1::u64)
           else word_of_nat ((unat (1::u64) * unat (base mod m) ^ unat exp) mod unat m))
        = word_of_nat (unat base ^ unat exp mod unat m)"
  proof (cases "exp = 0")
    case True
    then have "2 \<le> unat m" using assms(3) by simp
    then have "(1::nat) mod unat m = 1" by simp
    then show ?thesis using True by simp
  next
    case False
    then show ?thesis by (simp add: unat_mod power_mod)
  qed
  show "powmod_run base exp m = Some (word_of_nat (unat base ^ unat exp mod unat m), False)"
    using mne by (simp add: powmod_run_def loop val)
  then show "powmod base exp m = Some (word_of_nat (unat base ^ unat exp mod unat m))"
    by (simp add: powmod_def)
qed

lemma get_bit128_iff:
  "get_bit128 msk b = (if b < 64 then bit (fst msk) (unat b) else bit (snd msk) (unat (b - 64)))"
  by (simp add: get_bit128_def and_exp_eq_0_iff_not_bit)

lemma unat_sub64: "64 \<le> (b::u32) \<Longrightarrow> unat (b - 64) = unat b - 64"
  by (simp add: unat_sub)

lemma get_set_bit128:
  assumes "a < 128" "b < 128"
  shows "get_bit128 (set_bit128 msk a) b = (b = a \<or> get_bit128 msk b)"
proof -
  have a: "unat a < 128" and b: "unat b < 128"
    using assms by (simp_all add: word_less_nat_alt)
  have eq: "(unat b = unat a) = (b = a)"
    by (simp add: word_unat_eq_iff)
  show ?thesis
  proof (cases "a < 64"; cases "b < 64")
    assume "a < 64" "b < 64"
    then show ?thesis
      using a b eq by (auto simp: get_bit128_iff set_bit128_def bit_or_iff bit_exp_iff word_less_nat_alt)
  next
    assume "a < 64" "\<not> b < 64"
    then show ?thesis
      by (auto simp: get_bit128_iff set_bit128_def)
  next
    assume "\<not> a < 64" "b < 64"
    then show ?thesis
      by (auto simp: get_bit128_iff set_bit128_def)
  next
    assume "\<not> a < 64" "\<not> b < 64"
    then have "64 \<le> a" "64 \<le> b" by (simp_all add: not_less)
    then have "unat (a - 64) = unat a - 64" "unat (b - 64) = unat b - 64" "64 \<le> unat a" "64 \<le> unat b"
      by (simp_all add: unat_sub64 word_le_nat_alt)
    then show ?thesis
      using a b eq \<open>\<not> a < 64\<close> \<open>\<not> b < 64\<close>
      by (auto simp: get_bit128_iff set_bit128_def bit_or_iff bit_exp_iff)
  qed
qed

lemma get_bit128_empty [simp]: "get_bit128 (0, 0) b = False"
  by (simp add: get_bit128_iff)


lemma unat_succ_lt: "(r::'a::len word) < p \<Longrightarrow> unat (r + 1) = unat r + 1"
  by unat_arith

lemma unat_ucast_small:
  fixes w :: "'a::len word"
  assumes "unat w < 2 ^ LENGTH('b::len)"
  shows "unat (ucast w :: 'b word) = unat w"
  using assms by (simp add: unsigned_ucast_eq take_bit_nat_eq_self)

lemma unat_ucast_u32_u64 [simp]: "unat (ucast (w::u32) :: u64) = unat w"
proof -
  have "unat w < 2 ^ 32" using unsigned_less [of w, where ?'a = nat] by simp
  then show ?thesis by (intro unat_ucast_small) simp
qed

lemma unat_ucast_u8_u32 [simp]: "unat (ucast (w::u8) :: u32) = unat w"
proof -
  have "unat w < 2 ^ 8" using unsigned_less [of w, where ?'a = nat] by simp
  then show ?thesis by (intro unat_ucast_small) simp
qed

lemma unat_ucast_u8_u64 [simp]: "unat (ucast (w::u8) :: u64) = unat w"
proof -
  have "unat w < 2 ^ 8" using unsigned_less [of w, where ?'a = nat] by simp
  then show ?thesis by (intro unat_ucast_small) simp
qed

lemma ex_from_split: "(\<exists>s. (r::nat) \<le> s \<and> Q s) = (Q r \<or> (\<exists>s. Suc r \<le> s \<and> Q s))"
proof
  assume "\<exists>s. r \<le> s \<and> Q s"
  then obtain s where "r \<le> s" "Q s" by blast
  then show "Q r \<or> (\<exists>s. Suc r \<le> s \<and> Q s)"
    by (cases "s = r") (auto simp: Suc_le_eq)
next
  assume "Q r \<or> (\<exists>s. Suc r \<le> s \<and> Q s)"
  then show "\<exists>s. r \<le> s \<and> Q s"
    by (blast intro: Suc_leD order_refl)
qed

lemma residue_loop_bits:
  assumes p2: "2 \<le> unat p \<or> 1 \<le> unat z" and p128: "unat p \<le> 128"
  shows "unat r \<le> unat p \<Longrightarrow> \<exists>msk'. residue_loop r p z msk = Some msk' \<and>
      (\<forall>b<128. get_bit128 msk' b =
          (get_bit128 msk b \<or> (\<exists>s. unat r \<le> s \<and> s < unat p \<and> s ^ unat z mod unat p = unat b)))"
proof (induction "unat p - unat r" arbitrary: r msk)
  case 0
  then have "\<not> r < p" by (simp add: word_less_nat_alt)
  then show ?case using 0 by (auto simp: residue_loop.simps [of r])
next
  case (Suc n)
  then have lt: "r < p" by (simp add: word_less_nat_alt)
  then have ur: "unat r < unat p" by (simp add: word_less_nat_alt)
  have r1: "unat (r + 1) = unat r + 1" using lt by (rule unat_succ_lt)
  have up: "unat (ucast p :: u64) = unat p" and urr: "unat (ucast r :: u64) = unat r"
    by simp_all
  have p1: "1 \<le> unat (ucast p :: u64)" "unat (ucast p :: u64) \<le> 2 ^ 32"
    "2 \<le> unat (ucast p :: u64) \<or> 1 \<le> unat z"
    using ur p2 p128 by (auto simp: up)
  define v where "v = unat r ^ unat z mod unat p"
  have pm: "powmod (ucast r) z (ucast p) = Some (word_of_nat v)"
    using powmod_small(2) [OF p1, of "ucast r"] by (simp add: up urr v_def)
  have vlt: "v < unat p" using ur by (simp add: v_def)
  then have v128: "v < 128" using p128 by simp
  have uv: "unat (ucast (word_of_nat v :: u64) :: u32) = v"
    using v128 by (simp add: unsigned_ucast_eq unat_of_nat take_bit_nat_eq_self)
  then have b128: "(ucast (word_of_nat v :: u64) :: u32) < 128"
    using v128 by (simp add: word_less_nat_alt)
  have step: "residue_loop r p z msk = residue_loop (r + 1) p z (set_bit128 msk (ucast (word_of_nat v :: u64)))"
    using lt by (simp add: residue_loop.simps [of r] pm)
  have "n = unat p - unat (r + 1)" "unat (r + 1) \<le> unat p"
    using Suc(2) ur by (simp_all add: r1)
  from Suc(1) [OF this] obtain msk' where
    h: "residue_loop (r + 1) p z (set_bit128 msk (ucast (word_of_nat v :: u64))) = Some msk'"
     "\<forall>b<128. get_bit128 msk' b =
          (get_bit128 (set_bit128 msk (ucast (word_of_nat v :: u64))) b \<or>
            (\<exists>s. unat (r + 1) \<le> s \<and> s < unat p \<and> s ^ unat z mod unat p = unat b))"
    by blast
  have "get_bit128 msk' b =
          (get_bit128 msk b \<or> (\<exists>s. unat r \<le> s \<and> s < unat p \<and> s ^ unat z mod unat p = unat b))"
    if b: "b < 128" for b
  proof -
    have "(b = ucast (word_of_nat v :: u64)) = (unat b = v)"
      using uv by (auto simp: word_unat_eq_iff)
    moreover have "(\<exists>s. unat r \<le> s \<and> s < unat p \<and> s ^ unat z mod unat p = unat b)
        = (unat b = v \<or> (\<exists>s. Suc (unat r) \<le> s \<and> s < unat p \<and> s ^ unat z mod unat p = unat b))"
      using ur ex_from_split [of "unat r" "\<lambda>s. s < unat p \<and> s ^ unat z mod unat p = unat b"]
      by (auto simp: v_def)
    ultimately show ?thesis
      using h(2) b by (simp add: get_set_bit128 [OF b128 b] r1) blast
  qed
  then show ?case using h(1) by (simp add: step)
qed


lemma unat_drop_bit_div: "unat (drop_bit n (w::'a::len word)) = unat w div 2 ^ n"
  unfolding unat_drop_bit_eq by (rule drop_bit_eq_div)

lemma ctz_aux_spec:
  "w \<noteq> 0 \<Longrightarrow> unat w < 2 ^ n \<Longrightarrow>
     unat w = 2 ^ ctz_aux n w * unat (drop_bit (ctz_aux n w) w)
     \<and> odd (unat (drop_bit (ctz_aux n w) w))"
proof (induction n arbitrary: w)
  case 0
  then have "unat w = 0" by simp
  then have "w = 0" by (simp add: unat_eq_0)
  with 0 show ?case by simp
next
  case (Suc n)
  show ?case
  proof (cases "bit w 0")
    case True
    then have "odd (unat w)" by (simp add: bit_0 even_unat_word)
    with True show ?thesis by simp
  next
    case False
    then have ev: "even (unat w)" by (simp add: bit_0 even_unat_word)
    define w' where "w' = drop_bit 1 w"
    have u': "unat w' = unat w div 2" by (simp add: w'_def unat_drop_bit_div)
    have w2: "unat w = 2 * unat w'" using ev by (simp add: u')
    have "unat w \<noteq> 0" using Suc.prems(1) by (simp add: unat_eq_0)
    then have "unat w' \<noteq> 0" using w2 by simp
    then have n0: "w' \<noteq> 0" by (simp add: unat_eq_0)
    have lt: "unat w' < 2 ^ n" using Suc.prems(2) w2 by simp
    have dd: "drop_bit (Suc (ctz_aux n w')) w = drop_bit (ctz_aux n w') w'"
      by (simp add: w'_def drop_bit_drop_bit)
    have w'S: "drop_bit (Suc 0) w = w'" by (simp add: w'_def)
    from Suc.IH [OF n0 lt] show ?thesis
      using False by (simp add: w'S dd w2)
  qed
qed

lemma builtin_ctzll_spec:
  assumes "w \<noteq> 0"
  shows "unat w = 2 ^ builtin_ctzll w * unat (drop_bit (builtin_ctzll w) w)"
    and "odd (unat (drop_bit (builtin_ctzll w) w))"
proof -
  have "unat w < 2 ^ 64" using unsigned_less [of w, where ?'a = nat] by simp
  from ctz_aux_spec [OF assms this] show
    "unat w = 2 ^ builtin_ctzll w * unat (drop_bit (builtin_ctzll w) w)"
    "odd (unat (drop_bit (builtin_ctzll w) w))"
    by (simp_all add: builtin_ctzll_def)
qed

lemma ctz_aux_or: "ctz_aux n (a OR b) = min (ctz_aux n a) (ctz_aux n b)"
proof (induction n arbitrary: a b)
  case 0
  show ?case by simp
next
  case (Suc n)
  have "drop_bit 1 (a OR b) = drop_bit 1 a OR drop_bit 1 b"
    by (simp add: drop_bit_or)
  then show ?case
    using Suc.IH [of "drop_bit 1 a" "drop_bit 1 b"] by (simp add: bit_or_iff)
qed

lemma builtin_ctzll_or: "builtin_ctzll (a OR b) = min (builtin_ctzll a) (builtin_ctzll b)"
  by (simp add: builtin_ctzll_def ctz_aux_or)

lemma gcd_odd_pow2:
  fixes a b :: nat
  assumes "odd a"
  shows "gcd a (2 ^ j * b) = gcd a b"
proof -
  have "coprime a (2 ^ j)" using assms by simp
  then show ?thesis by (rule gcd_mult_right_left_cancel)
qed

lemma gcd_pow2_split:
  fixes a b :: nat
  assumes "odd a" "odd b"
  shows "gcd (2 ^ i * a) (2 ^ j * b) = 2 ^ min i j * gcd a b"
proof (cases "i \<le> j")
  case True
  then obtain k where j: "j = i + k" by (auto simp: le_iff_add)
  have "gcd (2 ^ i * a) (2 ^ j * b) = gcd (2 ^ i * a) (2 ^ i * (2 ^ k * b))"
    by (simp add: j power_add mult.assoc)
  also have "\<dots> = 2 ^ i * gcd a (2 ^ k * b)"
    by (simp only: gcd_mult_distrib_nat)
  also have "gcd a (2 ^ k * b) = gcd a b"
    using assms(1) by (rule gcd_odd_pow2)
  finally show ?thesis using True by (simp add: min_def)
next
  case False
  then have "j \<le> i" by simp
  then obtain k where i: "i = j + k" by (auto simp: le_iff_add)
  have "gcd (2 ^ i * a) (2 ^ j * b) = gcd (2 ^ j * (2 ^ k * a)) (2 ^ j * b)"
    by (simp add: i power_add mult.assoc)
  also have "\<dots> = 2 ^ j * gcd (2 ^ k * a) b"
    by (simp only: gcd_mult_distrib_nat)
  also have "gcd (2 ^ k * a) b = gcd a b"
    using gcd_odd_pow2 [OF assms(2), of k a] by (simp add: gcd.commute)
  finally show ?thesis using False by (simp add: min_def)
qed


lemma gcd64_loop_correct:
  "odd (unat a) \<Longrightarrow> b \<noteq> 0 \<Longrightarrow> gcd64_loop a b = Some (word_of_nat (gcd (unat a) (unat b)))"
proof (induction "unat a + unat b" arbitrary: a b rule: less_induct)
  case less
  define b1 where "b1 = drop_bit (builtin_ctzll b) b"
  define a2 where "a2 = (if a > b1 then b1 else a)"
  define b2 where "b2 = (if a > b1 then a else b1)"
  define b3 where "b3 = b2 - a2"
  have ub: "unat b = 2 ^ builtin_ctzll b * unat b1" and ob1: "odd (unat b1)"
    using builtin_ctzll_spec [OF less.prems(2)] by (simp_all add: b1_def)
  have "unat b1 \<le> 2 ^ builtin_ctzll b * unat b1" by simp
  then have b1le: "unat b1 \<le> unat b" by (simp only: ub [symmetric])
  have g1: "gcd (unat a) (unat b) = gcd (unat a) (unat b1)"
    by (subst ub) (rule gcd_odd_pow2 [OF less.prems(1)])
  have ua2: "unat a2 = min (unat a) (unat b1)" and ub2: "unat b2 = max (unat a) (unat b1)"
    by (auto simp: a2_def b2_def word_less_nat_alt)
  have le: "a2 \<le> b2" by (simp add: word_le_nat_alt ua2 ub2)
  have ub3: "unat b3 = max (unat a) (unat b1) - min (unat a) (unat b1)"
    using le by (simp add: b3_def unat_sub ua2 ub2)
  have oa2: "odd (unat a2)" using less.prems(1) ob1 by (auto simp: ua2 min_def)
  have g2: "gcd (unat a2) (unat b3) = gcd (unat a) (unat b1)"
  proof (cases "unat a \<le> unat b1")
    case True
    then show ?thesis
      using gcd_diff1_nat [OF True] by (simp add: ua2 ub3 min_def max_def gcd.commute)
  next
    case False
    then have "unat b1 \<le> unat a" by simp
    from gcd_diff1_nat [OF this] show ?thesis
      using False by (simp add: ua2 ub3 min_def max_def gcd.commute)
  qed
  have unf: "gcd64_loop a b = (if b3 \<noteq> 0 then gcd64_loop a2 b3 else Some a2)"
    by (subst gcd64_loop.simps) (simp add: Let_def b1_def a2_def b2_def b3_def)
  show ?case
  proof (cases "b3 = 0")
    case True
    then have "unat b3 = 0" by simp
    then have "unat a = unat b1" using ub3 by (simp add: max_def min_def split: if_splits)
    then have "gcd (unat a) (unat b) = unat a2" using g1 by (simp add: ua2)
    then show ?thesis using True by (simp add: unf)
  next
    case False
    have pos: "0 < unat a" "0 < unat b1" using less.prems(1) ob1 by (auto intro: Suc_lessI simp: odd_pos)
    have "unat a2 + unat b3 = max (unat a) (unat b1)" by (simp add: ua2 ub3)
    also have "\<dots> < unat a + unat b1" using pos by simp
    also have "\<dots> \<le> unat a + unat b" using b1le by simp
    finally have dec: "unat a2 + unat b3 < unat a + unat b" .
    from less.hyps [OF dec oa2 False] show ?thesis
      using False by (simp add: unf g2 g1)
  qed
qed

lemma gcd64_correct: "gcd64 a b = Some (word_of_nat (gcd (unat a) (unat b)))"
proof (cases "a = 0 \<or> b = 0")
  case True
  then show ?thesis by (auto simp: gcd64_def)
next
  case False
  then have a0: "a \<noteq> 0" and b0: "b \<noteq> 0" by simp_all
  define a1 where "a1 = drop_bit (builtin_ctzll a) a"
  define b1 where "b1 = drop_bit (builtin_ctzll b) b"
  have ua: "unat a = 2 ^ builtin_ctzll a * unat a1" and oa1: "odd (unat a1)"
    using builtin_ctzll_spec [OF a0] by (simp_all add: a1_def)
  have ub: "unat b = 2 ^ builtin_ctzll b * unat b1" and ob1: "odd (unat b1)"
    using builtin_ctzll_spec [OF b0] by (simp_all add: b1_def)
  define g where "g = gcd (unat a1) (unat b)"
  have loop: "gcd64_loop a1 b = Some (word_of_nat g)"
    unfolding g_def by (rule gcd64_loop_correct [OF oa1 b0])
  have g': "g = gcd (unat a1) (unat b1)"
    unfolding g_def by (subst ub) (rule gcd_odd_pow2 [OF oa1])
  define sh where "sh = min (builtin_ctzll a) (builtin_ctzll b)"
  have tot: "gcd (unat a) (unat b) = 2 ^ sh * g"
    unfolding g' sh_def by (subst ua, subst ub) (rule gcd_pow2_split [OF oa1 ob1])
  have "push_bit sh (word_of_nat g :: u64) = word_of_nat (2 ^ sh * g)"
    by (simp add: push_bit_eq_mult)
  then show ?thesis
    using a0 b0 by (simp add: gcd64_def Let_def builtin_ctzll_or loop tot flip: a1_def sh_def)
qed

lemma floor_root_from_le: "floor_root_from n u k \<le> k"
  by (induction k) auto

lemma floor_root_from_below: "1 \<le> n \<Longrightarrow> floor_root_from n u k ^ n \<le> u"
  by (induction k) (auto simp: power_0_left)

lemma floor_root_from_max:
  "floor_root_from n u k < j \<Longrightarrow> j \<le> k \<Longrightarrow> u < j ^ n"
proof (induction k)
  case 0
  then show ?case by simp
next
  case (Suc k)
  show ?case
  proof (cases "Suc k ^ n \<le> u")
    case True
    with Suc.prems show ?thesis by simp
  next
    case False
    show ?thesis
    proof (cases "j = Suc k")
      case True
      with False show ?thesis by simp
    next
      case neq: False
      with Suc.prems False have "floor_root_from n u k < j" "j \<le> k" by simp_all
      then show ?thesis by (rule Suc.IH)
    qed
  qed
qed

lemma self_le_power_nat: "1 \<le> n \<Longrightarrow> (r::nat) \<le> r ^ n"
  by (cases "r = 0") (simp_all add: self_le_power)

lemma mpz_root_exact:
  assumes n: "1 \<le> n"
  shows "mpz_root u n = Some (floor_root_from n u u, \<exists>r. r ^ n = u)"
    and "r ^ n = u \<Longrightarrow> floor_root_from n u u = r"
proof -
  define f where "f = floor_root_from n u u"
  have below: "f ^ n \<le> u" unfolding f_def by (rule floor_root_from_below [OF n])
  have uniq: "f = r" if r: "r ^ n = u" for r
  proof (rule ccontr)
    assume ne: "f \<noteq> r"
    have rle: "r \<le> u" using self_le_power_nat [OF n, of r] r by simp
    show False
    proof (cases "f < r")
      case True
      from floor_root_from_max [OF True [unfolded f_def] rle] show False using r by simp
    next
      case False
      with ne have "r < f" by simp
      then have "r ^ n < f ^ n" using n by (intro power_strict_mono) simp_all
      with below r show False by simp
    qed
  qed
  then show "r ^ n = u \<Longrightarrow> floor_root_from n u u = r" by (simp add: f_def)
  have "(f ^ n = u) = (\<exists>r. r ^ n = u)" using uniq by blast
  then show "mpz_root u n = Some (floor_root_from n u u, \<exists>r. r ^ n = u)"
    using n by (simp add: mpz_root_def Let_def f_def)
qed


lemma check_beal_hit_gmp_hit:
  assumes z: "1 \<le> unat z" and r1: "1 \<le> r" and rC: "r \<le> unat C_max"
    and eq: "unat A ^ unat x + unat B ^ unat y = r ^ unat z"
  shows "check_beal_hit_gmp A B x y z C_max out =
           Some (True, word_of_nat r, word_of_nat (gcd (unat A) (gcd (unat B) r)))"
proof -
  define S where "S = unat A ^ unat x + unat B ^ unat y"
  have "r ^ unat z = S" using eq by (simp add: S_def)
  then have root: "mpz_root S (unat z) = Some (r, True)"
    using mpz_root_exact(1) [OF z, of S] mpz_root_exact(2) [OF z, of r S] by auto
  have r64: "r < 2 ^ 64" using rC unsigned_less [of C_max, where ?'a = nat] by simp
  then have ur: "unat (word_of_nat r :: u64) = r" by (simp add: unat_of_nat)
  have le: "(word_of_nat r :: u64) \<le> C_max" using rC by (simp add: word_le_nat_alt ur)
  have pos: "(word_of_nat r :: u64) > 0" using r1 ur by (simp add: word_less_nat_alt)
  have "gcd (unat B) r \<le> r"
    using r1 by (intro gcd_le2_nat) simp
  then have gb: "gcd (unat B) r < 2 ^ 64"
    using r64 by simp
  have g1: "gcd64 B (word_of_nat r) = Some (word_of_nat (gcd (unat B) r))"
    by (simp add: gcd64_correct ur)
  have g2: "gcd64 A (word_of_nat (gcd (unat B) r)) = Some (word_of_nat (gcd (unat A) (gcd (unat B) r)))"
    using gb by (simp add: gcd64_correct unat_of_nat)
  show ?thesis
    using le pos r64
    by (simp add: check_beal_hit_gmp_def Let_def root mpz_fits_ulong_p_def mpz_get_ui_def g1 g2
        flip: S_def)
qed

lemma check_beal_hit_gmp_miss:
  assumes z: "1 \<le> unat z"
    and no: "\<not> (\<exists>r. 1 \<le> r \<and> r \<le> unat C_max \<and> unat A ^ unat x + unat B ^ unat y = r ^ unat z)"
  shows "check_beal_hit_gmp A B x y z C_max out = Some (False, out)"
proof -
  define S where "S = unat A ^ unat x + unat B ^ unat y"
  define f where "f = floor_root_from (unat z) S S"
  have root: "mpz_root S (unat z) = Some (f, \<exists>r. r ^ unat z = S)"
    unfolding f_def by (rule mpz_root_exact(1) [OF z])
  show ?thesis
  proof (cases "\<exists>r. r ^ unat z = S")
    case False
    then show ?thesis
      by (simp add: check_beal_hit_gmp_def Let_def root flip: S_def)
  next
    case True
    then obtain r where r: "r ^ unat z = S" by blast
    then have fr: "f = r" unfolding f_def by (rule mpz_root_exact(2) [OF z])
    have bad: "\<not> (1 \<le> r \<and> r \<le> unat C_max)" using no r by (auto simp: S_def)
    have "\<not> ((word_of_nat r :: u64) \<le> C_max \<and> (word_of_nat r :: u64) > 0)" if "r < 2 ^ 64"
    proof -
      have ur: "unat (word_of_nat r :: u64) = r" using that by (simp add: unat_of_nat)
      show ?thesis using bad by (auto simp: word_le_nat_alt word_less_nat_alt ur)
    qed
    then show ?thesis
      using True by (auto simp: check_beal_hit_gmp_def Let_def root fr mpz_fits_ulong_p_def
          mpz_get_ui_def simp flip: S_def)
  qed
qed

lemma no_cube_35: "\<not> (\<exists>r::nat. 1 \<le> r \<and> r \<le> 1000 \<and> 2 ^ 3 + 3 ^ 3 = r ^ 3)"
proof
  assume "\<exists>r::nat. 1 \<le> r \<and> r \<le> 1000 \<and> 2 ^ 3 + 3 ^ 3 = r ^ 3"
  then obtain r :: nat where r: "r ^ 3 = 35" by auto
  show False
  proof (cases "r \<le> 3")
    case True
    then have "r ^ 3 \<le> 3 ^ 3" by (rule power_mono) simp
    with r show False by simp
  next
    case False
    then have "4 \<le> r" by simp
    then have "(4::nat) ^ 3 \<le> r ^ 3" by (rule power_mono) simp
    with r show False by simp
  qed
qed


lemma for_le_Some_not_max:
  assumes "for_le step v hi body s = Some y"
  shows "hi \<noteq> - 1"
  by (rule for_le.raw_induct [where P = "\<lambda>step v hi body s y. hi \<noteq> - 1", OF _ assms])
    (fastforce split: if_splits simp: bind_eq_Some_conv)

lemma for_le_max_None [simp]: "for_le step v (- 1) body s = None"
  using for_le_Some_not_max [of step v "- 1" body s] by (cases "for_le step v (- 1) body s") auto

lemma unat_max_u64: "unat (- 1 :: u64) = 2 ^ 64 - 1"
  by (simp add: unsigned_minus_1_eq_mask mask_eq_exp_minus_1)

lemma unat_lt_max: "(hi::u64) \<noteq> - 1 \<Longrightarrow> unat hi < 2 ^ 64 - 1"
proof -
  assume ne: "hi \<noteq> - 1"
  have "unat hi \<noteq> unat (- 1 :: u64)" using ne by (simp add: word_unat_eq_iff)
  moreover have "unat hi < 2 ^ 64" using unsigned_less [of hi, where ?'a = nat] by simp
  ultimately show ?thesis by (simp add: unat_max_u64)
qed

lemma for_le_unroll:
  "hi \<noteq> - 1 \<Longrightarrow> for_le 1 v hi body s = fold_opt body (word_range v hi) s"
proof (induction "Suc (unat hi) - unat v" arbitrary: v s)
  case 0
  then have "\<not> v \<le> hi" by (simp add: word_le_nat_alt)
  moreover have "word_range v hi = []" using 0 by (simp add: word_range_def del: upt_Suc)
  ultimately show ?case by (subst for_le.simps) simp
next
  case (Suc n)
  then have le: "v \<le> hi" by (simp add: word_le_nat_alt)
  then have ule: "unat v \<le> unat hi" by (simp add: word_le_nat_alt)
  have "unat v < 2 ^ 64 - 1" using ule unat_lt_max [OF Suc.prems] by simp
  then have u1: "unat (v + 1) = Suc (unat v)" by (simp add: unat_word_ariths)
  have n: "n = Suc (unat hi) - unat (v + 1)" using Suc(2) by (simp add: u1)
  have rng: "word_range v hi = v # word_range (v + 1) hi"
    using ule by (simp add: word_range_def upt_conv_Cons u1 del: upt_Suc)
  have IH: "for_le 1 (v + 1) hi body = fold_opt body (word_range (v + 1) hi)"
    by (rule ext) (rule Suc(1) [OF n Suc.prems])
  show ?case
    using le by (subst for_le.simps) (simp add: rng IH)
qed

lemma set_word_range:
  "hi \<noteq> - 1 \<Longrightarrow> set (word_range lo hi) = {v. lo \<le> v \<and> v \<le> hi}"
proof -
  assume ne: "hi \<noteq> - 1"
  have hi: "unat hi < 2 ^ 64 - 1" by (rule unat_lt_max [OF ne])
  show ?thesis
  proof (intro set_eqI iffI)
    fix v assume "v \<in> set (word_range lo hi)"
    then obtain k where k: "unat lo \<le> k" "k \<le> unat hi" "v = word_of_nat k"
      by (auto simp: word_range_def simp del: upt_Suc)
    then have "unat v = k" using hi by (simp add: unat_of_nat)
    then show "v \<in> {v. lo \<le> v \<and> v \<le> hi}" using k by (simp add: word_le_nat_alt)
  next
    fix v assume "v \<in> {v. lo \<le> v \<and> v \<le> hi}"
    then have "unat lo \<le> unat v" "unat v \<le> unat hi" by (simp_all add: word_le_nat_alt)
    then have "unat v \<in> set [unat lo ..< Suc (unat hi)]" by (simp del: upt_Suc)
    then have "word_of_nat (unat v) \<in> set (word_range lo hi)"
      unfolding word_range_def set_map by (rule imageI)
    then show "v \<in> set (word_range lo hi)" by simp
  qed
qed

lemma nth_word_range:
  "k < Suc (unat hi) - unat lo \<Longrightarrow> word_range lo hi ! k = word_of_nat (unat lo + k)"
  by (simp add: word_range_def del: upt_Suc)

lemma length_word_range [simp]: "length (word_range lo hi) = Suc (unat hi) - unat lo"
  by (simp add: word_range_def del: upt_Suc)

lemma those_map_Some:
  "those (map f xs) = Some ys \<Longrightarrow>
     length ys = length xs \<and> (\<forall>i<length xs. f (xs ! i) = Some (ys ! i))"
proof (induction xs arbitrary: ys)
  case Nil
  then show ?case by simp
next
  case (Cons a xs)
  from Cons.prems obtain y ys' where y: "f a = Some y" "those (map f xs) = Some ys'" "ys = y # ys'"
    by (auto split: option.splits)
  from Cons.IH [OF y(2)] show ?case
    using y(1,3) by (auto simp: nth_Cons split: nat.splits)
qed

lemma those_map_total:
  "(\<And>x. x \<in> set xs \<Longrightarrow> \<exists>y. f x = Some y) \<Longrightarrow> \<exists>ys. those (map f xs) = Some ys"
proof (induction xs)
  case Nil
  then show ?case by simp
next
  case (Cons a xs)
  then obtain y ys where "f a = Some y" "those (map f xs) = Some ys"
    by (metis list.set_intros)
  then show ?case by simp
qed

lemma fold_opt_append_rows:
  "fold_opt (\<lambda>a rows. map_option (\<lambda>row. rows @ [row]) (g a)) as rows0 = Some rows \<Longrightarrow>
     length rows = length rows0 + length as \<and>
     (\<forall>k<length rows0. rows ! k = rows0 ! k) \<and>
     (\<forall>k<length as. g (as ! k) = Some (rows ! (length rows0 + k)))"
proof (induction as arbitrary: rows0)
  case Nil
  then show ?case by simp
next
  case (Cons a as)
  from Cons.prems obtain row where row: "g a = Some row"
    and rest: "fold_opt (\<lambda>a rows. map_option (\<lambda>row. rows @ [row]) (g a)) as (rows0 @ [row]) = Some rows"
    by (auto simp: bind_eq_Some_conv)
  from Cons.IH [OF rest] have len: "length rows = length rows0 + 1 + length as"
    and old: "\<forall>k<length rows0 + 1. rows ! k = (rows0 @ [row]) ! k"
    and new: "\<forall>k<length as. g (as ! k) = Some (rows ! (length rows0 + 1 + k))"
    by simp_all
  have "rows ! length rows0 = row" using old by (simp add: nth_append)
  moreover have "\<forall>k<length rows0. rows ! k = rows0 ! k"
    using old by (auto simp: nth_append)
  ultimately show ?case
    using len new row by (auto simp: nth_Cons split: nat.splits)
qed

lemma fold_opt_total:
  "(\<And>a s. a \<in> set as \<Longrightarrow> \<exists>s'. f a s = Some s') \<Longrightarrow> \<exists>s'. fold_opt f as s = Some s'"
proof (induction as arbitrary: s)
  case Nil
  then show ?case by simp
next
  case (Cons a as)
  then obtain s1 where s1: "f a s = Some s1" by (metis list.set_intros(1))
  have "\<exists>s'. fold_opt f as s1 = Some s'"
    by (rule Cons.IH) (metis Cons.prems list.set_intros(2))
  then show ?case using s1 by simp
qed

lemma length_SIEVE_PRIMES [simp]: "length SIEVE_PRIMES = 20"
  by (simp add: SIEVE_PRIMES_def)

lemma sieve_prime_bounds:
  assumes "i < 20"
  shows "2 \<le> unat (SIEVE_PRIMES ! i)" and "unat (SIEVE_PRIMES ! i) \<le> 71"
proof -
  have "SIEVE_PRIMES ! i \<in> set SIEVE_PRIMES" using assms by (intro nth_mem) simp
  then have "2 \<le> unat (SIEVE_PRIMES ! i) \<and> unat (SIEVE_PRIMES ! i) \<le> 71"
    by (auto simp: SIEVE_PRIMES_def)
  then show "2 \<le> unat (SIEVE_PRIMES ! i)" and "unat (SIEVE_PRIMES ! i) \<le> 71" by simp_all
qed

lemma sieve_residue_small:
  assumes "i < 20"
  shows "n mod unat (SIEVE_PRIMES ! i) < unat (SIEVE_PRIMES ! i)"
    and "n mod unat (SIEVE_PRIMES ! i) < 71"
proof -
  have "0 < unat (SIEVE_PRIMES ! i)" using sieve_prime_bounds(1) [OF assms] by linarith
  then show lt: "n mod unat (SIEVE_PRIMES ! i) < unat (SIEVE_PRIMES ! i)"
    by (rule mod_less_divisor)
  then show "n mod unat (SIEVE_PRIMES ! i) < 71"
    using sieve_prime_bounds(2) [OF assms] by linarith
qed

lemma powmod_sieve_prime:
  assumes "i < 20"
  shows "powmod A e (ucast (SIEVE_PRIMES ! i))
           = Some (word_of_nat (unat A ^ unat e mod unat (SIEVE_PRIMES ! i)))"
proof -
  have "1 \<le> unat (ucast (SIEVE_PRIMES ! i) :: u64)" "unat (ucast (SIEVE_PRIMES ! i) :: u64) \<le> 2 ^ 32"
    "2 \<le> unat (ucast (SIEVE_PRIMES ! i) :: u64) \<or> 1 \<le> unat e"
    using sieve_prime_bounds [OF assms] by simp_all
  from powmod_small(2) [OF this] show ?thesis by simp
qed

lemma unat_ucast_u64_u8_small: "n < 256 \<Longrightarrow> unat (ucast (word_of_nat n :: u64) :: u8) = n"
  by (simp add: unsigned_ucast_eq unat_of_nat take_bit_nat_eq_self)

lemma ax_mod_row_Some:
  assumes "ax_mod_row x A = Some row"
  shows "length row = 20"
    and "i < 20 \<Longrightarrow> unat (row ! i) = unat A ^ unat x mod unat (SIEVE_PRIMES ! i)"
proof -
  let ?f = "\<lambda>i. map_option ucast (powmod A x (ucast (SIEVE_PRIMES ! i))) :: u8 option"
  from those_map_Some [of ?f "[0..<20]" row] assms
  have len: "length row = 20" and ent: "\<forall>i<20. ?f i = Some (row ! i)"
    by (simp_all add: ax_mod_row_def NUM_SIEVE_PRIMES_def)
  show "length row = 20" by (rule len)
  show "unat (row ! i) = unat A ^ unat x mod unat (SIEVE_PRIMES ! i)" if i: "i < 20"
  proof -
    have p: "unat A ^ unat x mod unat (SIEVE_PRIMES ! i) < 256"
      using sieve_residue_small(2) [OF i, of "unat A ^ unat x"] by linarith
    have "?f i = Some (row ! i)" using ent i by blast
    then have "row ! i = ucast (word_of_nat (unat A ^ unat x mod unat (SIEVE_PRIMES ! i)) :: u64)"
      by (simp add: powmod_sieve_prime [OF i])
    then show ?thesis by (simp only: unat_ucast_u64_u8_small [OF p])
  qed
qed

lemma ax_mod_row_total: "\<exists>row. ax_mod_row x A = Some row"
  unfolding ax_mod_row_def
  by (rule those_map_total) (simp add: NUM_SIEVE_PRIMES_def powmod_sieve_prime)

lemma by_mod_row_Some:
  assumes "by_mod_row y B_max i = Some row" and i: "i < 20"
  shows "B_max \<noteq> - 1" and "length row = Suc (unat B_max)"
    and "b \<le> unat B_max \<Longrightarrow> unat (row ! b) = b ^ unat y mod unat (SIEVE_PRIMES ! i)"
proof -
  let ?g = "\<lambda>B. map_option (ucast :: u64 \<Rightarrow> u8) (powmod B y (ucast (ucast (SIEVE_PRIMES ! i) :: u32)))"
  have loop: "for_le 1 0 B_max (\<lambda>B row. map_option (\<lambda>v. row @ [v]) (?g B)) [] = Some row"
    using assms(1) by (simp add: by_mod_row_def Let_def option.map_comp comp_def)
  then show ne: "B_max \<noteq> - 1" by (rule for_le_Some_not_max)
  have hi: "unat B_max < 2 ^ 64 - 1" by (rule unat_lt_max [OF ne])
  from loop have "fold_opt (\<lambda>B row. map_option (\<lambda>v. row @ [v]) (?g B)) (word_range 0 B_max) [] = Some row"
    by (simp add: for_le_unroll [OF ne])
  from fold_opt_append_rows [OF this]
  have len: "length row = Suc (unat B_max)"
    and ent: "\<forall>k<Suc (unat B_max). ?g (word_range 0 B_max ! k) = Some (row ! k)"
    by simp_all
  show "length row = Suc (unat B_max)" by (rule len)
  show "unat (row ! b) = b ^ unat y mod unat (SIEVE_PRIMES ! i)" if b: "b \<le> unat B_max"
  proof -
    have wb: "word_range 0 B_max ! b = word_of_nat b" using b by (simp add: nth_word_range)
    have ub: "unat (word_of_nat b :: u64) = b" using b hi by (simp add: unat_of_nat)
    have pc: "(ucast (ucast (SIEVE_PRIMES ! i) :: u32) :: u64) = ucast (SIEVE_PRIMES ! i)"
      by (simp add: word_unat_eq_iff)
    have p: "b ^ unat y mod unat (SIEVE_PRIMES ! i) < 256"
      using sieve_residue_small(2) [OF i, of "b ^ unat y"] by linarith
    have "b < Suc (unat B_max)" using b by simp
    with ent have "?g (word_range 0 B_max ! b) = Some (row ! b)" by blast
    then have "?g (word_of_nat b) = Some (row ! b)" by (simp only: wb)
    then have "row ! b = ucast (word_of_nat (b ^ unat y mod unat (SIEVE_PRIMES ! i)) :: u64)"
      by (simp add: pc powmod_sieve_prime [OF i] ub)
    then show ?thesis by (simp only: unat_ucast_u64_u8_small [OF p])
  qed
qed

lemma precompute_create_Some:
  assumes "precompute_create x y z A_max B_max = Some data"
  shows "pd_A_max data = A_max" and "pd_B_max data = B_max"
    and "A_max \<noteq> - 1" and "B_max \<noteq> - 1"
    and "length (residue_masks data) = 20"
    and "i < 20 \<Longrightarrow>
           compute_residue_mask128 (ucast (SIEVE_PRIMES ! i)) z = Some (residue_masks data ! i)"
    and "length (ax_mod data) = Suc (unat A_max)"
    and "a \<le> unat A_max \<Longrightarrow> ax_mod_row x (word_of_nat a) = Some (ax_mod data ! a)"
    and "length (by_mod data) = 20"
    and "i < 20 \<Longrightarrow> by_mod_row y B_max i = Some (by_mod data ! i)"
proof -
  from assms obtain masks ax by' where
    masks: "those (map (\<lambda>i. compute_residue_mask128 (ucast (SIEVE_PRIMES ! i)) z) [0..<20]) = Some masks"
    and ax: "for_le 1 0 A_max (\<lambda>A rows. map_option (\<lambda>row. rows @ [row]) (ax_mod_row x A)) [] = Some ax"
    and by': "those (map (by_mod_row y B_max) [0..<20]) = Some by'"
    and data: "data = \<lparr> pd_x = x, pd_y = y, pd_z = z, residue_masks = masks, ax_mod = ax,
        by_mod = by', pd_A_max = A_max, pd_B_max = B_max \<rparr>"
    by (auto simp: precompute_create_def NUM_SIEVE_PRIMES_def bind_eq_Some_conv)
  show "pd_A_max data = A_max" "pd_B_max data = B_max" by (simp_all add: data)
  show ne: "A_max \<noteq> - 1" using ax by (rule for_le_Some_not_max)
  from those_map_Some [OF masks]
  show "length (residue_masks data) = 20"
    and "i < 20 \<Longrightarrow>
           compute_residue_mask128 (ucast (SIEVE_PRIMES ! i)) z = Some (residue_masks data ! i)"
    by (simp_all add: data)
  from those_map_Some [OF by']
  have bl: "length by' = 20" and be: "\<forall>i<20. by_mod_row y B_max i = Some (by' ! i)"
    by simp_all
  show "length (by_mod data) = 20" by (simp add: data bl)
  show "i < 20 \<Longrightarrow> by_mod_row y B_max i = Some (by_mod data ! i)" using be by (simp add: data)
  have "by_mod_row y B_max 0 = Some (by' ! 0)" using be by simp
  then show "B_max \<noteq> - 1" by (rule by_mod_row_Some(1)) simp
  from ax have "fold_opt (\<lambda>A rows. map_option (\<lambda>row. rows @ [row]) (ax_mod_row x A))
      (word_range 0 A_max) [] = Some ax"
    by (simp add: for_le_unroll [OF ne])
  from fold_opt_append_rows [OF this]
  have al: "length ax = Suc (unat A_max)"
    and ae: "\<forall>k<Suc (unat A_max). ax_mod_row x (word_range 0 A_max ! k) = Some (ax ! k)"
    by simp_all
  show "length (ax_mod data) = Suc (unat A_max)" by (simp add: data al)
  show "ax_mod_row x (word_of_nat a) = Some (ax_mod data ! a)" if a: "a \<le> unat A_max"
  proof -
    have "a < Suc (unat A_max)" using a by simp
    with ae have "ax_mod_row x (word_range 0 A_max ! a) = Some (ax ! a)" by blast
    moreover have "word_range 0 A_max ! a = word_of_nat a" using a by (simp add: nth_word_range)
    ultimately show ?thesis by (simp add: data)
  qed
qed

lemma precompute_create_total:
  assumes "A_max \<noteq> - 1" and "B_max \<noteq> - 1"
  shows "\<exists>data. precompute_create x y z A_max B_max = Some data"
proof -
  have m: "\<exists>masks. those (map (\<lambda>i. compute_residue_mask128 (ucast (SIEVE_PRIMES ! i)) z)
      [0..<NUM_SIEVE_PRIMES]) = Some masks"
  proof (rule those_map_total)
    fix i assume "i \<in> set [0..<NUM_SIEVE_PRIMES]"
    then have i: "i < 20" by (simp add: NUM_SIEVE_PRIMES_def)
    have "2 \<le> unat (ucast (SIEVE_PRIMES ! i) :: u32) \<or> 1 \<le> unat z"
      "unat (ucast (SIEVE_PRIMES ! i) :: u32) \<le> 128"
      using sieve_prime_bounds [OF i] by simp_all
    from residue_loop_bits [OF this, of 0 "(0, 0)"]
    show "\<exists>msk. compute_residue_mask128 (ucast (SIEVE_PRIMES ! i)) z = Some msk"
      by (auto simp: compute_residue_mask128_def)
  qed
  have a: "\<exists>ax. for_le 1 0 A_max (\<lambda>A rows. map_option (\<lambda>row. rows @ [row]) (ax_mod_row x A)) []
      = Some ax"
    unfolding for_le_unroll [OF assms(1)]
  proof (rule fold_opt_total)
    fix A :: u64 and rows :: "u8 list list"
    show "\<exists>s'. map_option (\<lambda>row. rows @ [row]) (ax_mod_row x A) = Some s'"
      using ax_mod_row_total [of x A] by auto
  qed
  have b: "\<exists>by'. those (map (by_mod_row y B_max) [0..<NUM_SIEVE_PRIMES]) = Some by'"
  proof (rule those_map_total)
    fix i assume "i \<in> set [0..<NUM_SIEVE_PRIMES]"
    then have i: "i < 20" by (simp add: NUM_SIEVE_PRIMES_def)
    show "\<exists>row. by_mod_row y B_max i = Some row"
      unfolding by_mod_row_def Let_def for_le_unroll [OF assms(2)]
    proof (rule fold_opt_total)
      fix B :: u64 and row :: "u8 list"
      have pc: "(ucast (ucast (SIEVE_PRIMES ! i) :: u32) :: u64) = ucast (SIEVE_PRIMES ! i)"
        by (simp add: word_unat_eq_iff)
      show "\<exists>s'. map_option (\<lambda>v. row @ [ucast v])
          (powmod B y (ucast (ucast (SIEVE_PRIMES ! i) :: u32))) = Some s'"
        by (simp add: pc powmod_sieve_prime [OF i])
    qed
  qed
  from m a b show ?thesis
    by (auto simp: precompute_create_def)
qed

lemma nth_opt_Some [simp]: "i < length xs \<Longrightarrow> nth_opt xs i = Some (xs ! i)"
  by (simp add: nth_opt_def)

lemma sieve_sum_unat:
  assumes i: "i < 20"
    and ax: "unat ax = a mod unat (SIEVE_PRIMES ! i)"
    and by': "unat by' = b mod unat (SIEVE_PRIMES ! i)"
  shows "unat (sieve_sum (ucast (SIEVE_PRIMES ! i)) ax by') = (a + b) mod unat (SIEVE_PRIMES ! i)"
    and "sieve_sum (ucast (SIEVE_PRIMES ! i)) ax by' < 128"
proof -
  let ?p = "unat (SIEVE_PRIMES ! i)"
  have p: "2 \<le> ?p" "?p \<le> 71" by (rule sieve_prime_bounds [OF i])+
  have la: "unat ax < ?p" and lb: "unat by' < ?p"
    using sieve_residue_small(1) [OF i] by (simp_all add: ax by')
  define sum where "sum = (ucast ax + ucast by' :: u32)"
  have "unat (ucast ax :: u32) + unat (ucast by' :: u32) < 2 ^ 32"
    using la lb p by simp
  then have us: "unat sum = unat ax + unat by'"
    unfolding sum_def by (simp add: unat_add_lem [THEN iffD1])
  have up: "unat (ucast (SIEVE_PRIMES ! i) :: u32) = ?p" by simp
  have val: "unat (sieve_sum (ucast (SIEVE_PRIMES ! i)) ax by')
        = (if ?p \<le> unat ax + unat by' then unat ax + unat by' - ?p else unat ax + unat by')"
    by (simp add: sieve_sum_def Let_def word_le_nat_alt unat_sub up us flip: sum_def)
  have "(a + b) mod ?p = (unat ax + unat by') mod ?p"
    by (simp add: ax by' mod_add_eq)
  also have "\<dots> = (if ?p \<le> unat ax + unat by' then unat ax + unat by' - ?p else unat ax + unat by')"
    using la lb by (simp add: mod_if not_le)
  finally show r: "unat (sieve_sum (ucast (SIEVE_PRIMES ! i)) ax by') = (a + b) mod ?p"
    using val by simp
  have "(a + b) mod ?p < 71" by (rule sieve_residue_small(2) [OF i])
  then show "sieve_sum (ucast (SIEVE_PRIMES ! i)) ax by' < 128"
    using r by (simp add: word_less_nat_alt)
qed

lemma precompute_reads:
  assumes pc: "precompute_create x y z A_max B_max = Some data" and i: "i < 20"
  shows "A \<le> A_max \<Longrightarrow> unat A < length (ax_mod data) \<and> i < length (ax_mod data ! unat A) \<and>
            unat (ax_mod data ! unat A ! i) = unat A ^ unat x mod unat (SIEVE_PRIMES ! i)"
    and "B \<le> B_max \<Longrightarrow> i < length (by_mod data) \<and> unat B < length (by_mod data ! i) \<and>
            unat (by_mod data ! i ! unat B) = unat B ^ unat y mod unat (SIEVE_PRIMES ! i)"
    and "i < length (residue_masks data) \<and>
           (\<forall>r<128. get_bit128 (residue_masks data ! i) r =
              (\<exists>s<unat (SIEVE_PRIMES ! i). s ^ unat z mod unat (SIEVE_PRIMES ! i) = unat r))"
proof -
  note f = precompute_create_Some [OF pc]
  show "unat A < length (ax_mod data) \<and> i < length (ax_mod data ! unat A) \<and>
            unat (ax_mod data ! unat A ! i) = unat A ^ unat x mod unat (SIEVE_PRIMES ! i)"
    if "A \<le> A_max"
  proof -
    have le: "unat A \<le> unat A_max" using that by (simp add: word_le_nat_alt)
    have "ax_mod_row x (word_of_nat (unat A)) = Some (ax_mod data ! unat A)"
      by (rule f(8) [OF le])
    then have row: "ax_mod_row x A = Some (ax_mod data ! unat A)" by simp
    show ?thesis
      using le ax_mod_row_Some [OF row] i by (simp add: f(7))
  qed
  show "i < length (by_mod data) \<and> unat B < length (by_mod data ! i) \<and>
            unat (by_mod data ! i ! unat B) = unat B ^ unat y mod unat (SIEVE_PRIMES ! i)"
    if "B \<le> B_max"
  proof -
    have le: "unat B \<le> unat B_max" using that by (simp add: word_le_nat_alt)
    have row: "by_mod_row y B_max i = Some (by_mod data ! i)" by (rule f(10) [OF i])
    show ?thesis
      using le by_mod_row_Some(2,3) [OF row i] i by (simp add: f(9))
  qed
  have m: "compute_residue_mask128 (ucast (SIEVE_PRIMES ! i)) z = Some (residue_masks data ! i)"
    by (rule f(6) [OF i])
  have "2 \<le> unat (ucast (SIEVE_PRIMES ! i) :: u32) \<or> 1 \<le> unat z"
    "unat (ucast (SIEVE_PRIMES ! i) :: u32) \<le> 128"
    using sieve_prime_bounds [OF i] by simp_all
  from residue_loop_bits [OF this, of 0 "(0, 0)"] m
  have "\<forall>r<128. get_bit128 (residue_masks data ! i) r =
              (\<exists>s<unat (SIEVE_PRIMES ! i). s ^ unat z mod unat (SIEVE_PRIMES ! i) = unat r)"
    by (auto simp: compute_residue_mask128_def)
  then show "i < length (residue_masks data) \<and>
           (\<forall>r<128. get_bit128 (residue_masks data ! i) r =
              (\<exists>s<unat (SIEVE_PRIMES ! i). s ^ unat z mod unat (SIEVE_PRIMES ! i) = unat r))"
    using i by (simp add: f(5))
qed

lemma sieve_check_admits:
  assumes pc: "precompute_create x y z A_max B_max = Some data" and i: "i < 20"
    and A: "A \<le> A_max" and B: "B \<le> B_max"
  shows "get_bit128 (residue_masks data ! i)
           (sieve_sum (ucast (SIEVE_PRIMES ! i)) (ax_mod data ! unat A ! i) (by_mod data ! i ! unat B))
         = sieve_admits x y z A B i"
proof -
  note r = precompute_reads [OF pc i]
  from r(1) [OF A] have ax: "unat (ax_mod data ! unat A ! i)
      = unat A ^ unat x mod unat (SIEVE_PRIMES ! i)" by simp
  from r(2) [OF B] have by': "unat (by_mod data ! i ! unat B)
      = unat B ^ unat y mod unat (SIEVE_PRIMES ! i)" by simp
  note s = sieve_sum_unat [OF i ax by']
  from r(3) s(2) have "get_bit128 (residue_masks data ! i)
           (sieve_sum (ucast (SIEVE_PRIMES ! i)) (ax_mod data ! unat A ! i) (by_mod data ! i ! unat B))
     = (\<exists>s<unat (SIEVE_PRIMES ! i). s ^ unat z mod unat (SIEVE_PRIMES ! i)
          = unat (sieve_sum (ucast (SIEVE_PRIMES ! i)) (ax_mod data ! unat A ! i) (by_mod data ! i ! unat B)))"
    by blast
  then show ?thesis by (simp add: s(1) sieve_admits_def Let_def)
qed

lemma sieve_scalar_loop_spec:
  assumes pc: "precompute_create x y z A_max B_max = Some data"
    and A: "A \<le> A_max" and B: "B \<le> B_max"
  shows "\<forall>i\<in>set is. i < 20 \<Longrightarrow>
           sieve_scalar_loop is A B data = Some (\<forall>i\<in>set is. sieve_admits x y z A B i)"
proof (induction "is")
  case Nil
  show ?case by simp
next
  case (Cons i "is")
  then have i: "i < 20" and rest: "\<forall>i\<in>set is. i < 20" by simp_all
  note r = precompute_reads [OF pc i]
  note c = sieve_check_admits [OF pc i A B]
  show ?case
    using r(1) [OF A] r(2) [OF B] r(3) Cons.IH [OF rest]
    by (simp add: c)
qed

lemma sieve_survives_scalar_spec:
  assumes "precompute_create x y z A_max B_max = Some data" and "A \<le> A_max" and "B \<le> B_max"
  shows "sieve_survives_scalar A B data = Some (\<forall>i<20. sieve_admits x y z A B i)"
proof -
  have "(\<forall>i\<in>set [0..<20]. sieve_admits x y z A B i) = (\<forall>i<20. sieve_admits x y z A B i)"
    by auto
  then show ?thesis
    using sieve_scalar_loop_spec [OF assms, of "[0..<20]"]
    by (simp add: sieve_survives_scalar_def NUM_SIEVE_PRIMES_def)
qed

lemma solution_admitted:
  assumes "unat A ^ unat x + unat B ^ unat y = C ^ unat z" and "i < 20"
  shows "sieve_admits x y z A B i"
proof -
  let ?p = "unat (SIEVE_PRIMES ! i)"
  have "C mod ?p < ?p" by (rule sieve_residue_small(1) [OF assms(2)])
  moreover have "(C mod ?p) ^ unat z mod ?p = (unat A ^ unat x + unat B ^ unat y) mod ?p"
    by (simp add: assms(1) power_mod)
  ultimately show ?thesis unfolding sieve_admits_def Let_def by blast
qed

lemma fold_opt_append:
  "fold_opt f (xs @ ys) s = Option.bind (fold_opt f xs s) (fold_opt f ys)"
  by (induction xs arbitrary: s) (auto split: bind_splits)

lemma u8_clear_bit:
  "bit ((s::u8) AND NOT (2 ^ l)) k = (bit s k \<and> k \<noteq> l)"
  by (auto simp: bit_and_iff bit_not_iff bit_exp_iff dest: bit_imp_le_length)

lemma u8_test_bit: "((s::u8) AND 2 ^ l = 0) = (\<not> bit s l)"
  by (simp add: and_exp_eq_0_iff_not_bit)

lemma avx2_lane_spec:
  assumes pc: "precompute_create x y z A_max B_max = Some data" and i: "i < 20"
    and A: "A \<le> A_max"
  shows "\<exists>s'. avx2_lane B_start data (ucast (SIEVE_PRIMES ! i)) (ax_mod data ! unat A ! i)
              (by_mod data ! i) (residue_masks data ! i) l s = Some s' \<and>
           (\<forall>k. bit s' k = (if k = l then bit s l \<and> B_start + word_of_nat l \<le> B_max \<and>
                                   sieve_admits x y z A (B_start + word_of_nat l) i
                            else bit s k))"
proof (cases "bit s l")
  case False
  then show ?thesis by (auto simp: avx2_lane_def u8_test_bit)
next
  case True
  note bm = precompute_create_Some(2) [OF pc]
  show ?thesis
  proof (cases "B_start + word_of_nat l \<le> B_max")
    case False
    then have "B_start + word_of_nat l > B_max" by simp
    then show ?thesis
      using True False by (auto simp: avx2_lane_def u8_test_bit Let_def bm u8_clear_bit)
  next
    case le: True
    then have ngt: "\<not> B_start + word_of_nat l > B_max" by simp
    note r = precompute_reads(2) [OF pc i le]
    note c = sieve_check_admits [OF pc i A le]
    show ?thesis
      using True le ngt r
      by (auto simp: avx2_lane_def u8_test_bit Let_def bm u8_clear_bit c)
  qed
qed

lemma fold_lanes:
  assumes "\<And>l s. l < n \<Longrightarrow> \<exists>s'. f l s = Some s' \<and>
      (\<forall>k. bit s' k = (if k = l then bit s l \<and> ok l else bit (s::u8) k))"
  shows "\<exists>s'. fold_opt f [0..<n] s = Some s' \<and> (\<forall>k. bit s' k = (bit s k \<and> (k < n \<longrightarrow> ok k)))"
  using assms
proof (induction n)
  case 0
  show ?case by simp
next
  case (Suc n)
  have "\<exists>s'. fold_opt f [0..<n] s = Some s' \<and> (\<forall>k. bit s' k = (bit s k \<and> (k < n \<longrightarrow> ok k)))"
    by (rule Suc.IH) (simp add: Suc.prems)
  then obtain s1 where s1: "fold_opt f [0..<n] s = Some s1"
    and b1: "\<forall>k. bit s1 k = (bit s k \<and> (k < n \<longrightarrow> ok k))" by blast
  from Suc.prems [of n s1] obtain s2 where s2: "f n s1 = Some s2"
    and b2: "\<forall>k. bit s2 k = (if k = n then bit s1 n \<and> ok n else bit s1 k)" by auto
  have "fold_opt f [0..<Suc n] s = Some s2"
    by (simp add: fold_opt_append s1 s2)
  moreover have "\<forall>k. bit s2 k = (bit s k \<and> (k < Suc n \<longrightarrow> ok k))"
    using b1 b2 by (auto simp: less_Suc_eq)
  ultimately show ?case by blast
qed

lemma avx2_prime_loop_spec:
  assumes pc: "precompute_create x y z A_max B_max = Some data" and A: "A \<le> A_max"
  shows "\<forall>i\<in>set is. i < 20 \<Longrightarrow>
     \<exists>s'. avx2_prime_loop is A B_start data s = Some s' \<and>
       (\<forall>k<8. bit s' k = (bit s k \<and> (\<forall>i\<in>set is. B_start + word_of_nat k \<le> B_max \<and>
                                     sieve_admits x y z A (B_start + word_of_nat k) i)))"
proof (induction "is" arbitrary: s)
  case Nil
  show ?case by simp
next
  case (Cons i "is")
  then have i: "i < 20" and rest: "\<forall>i\<in>set is. i < 20" by simp_all
  let ?ok = "\<lambda>i k. B_start + word_of_nat k \<le> B_max \<and> sieve_admits x y z A (B_start + word_of_nat k) i"
  note r = precompute_reads [OF pc i]
  let ?f = "avx2_lane B_start data (ucast (SIEVE_PRIMES ! i)) (ax_mod data ! unat A ! i)
              (by_mod data ! i) (residue_masks data ! i)"
  have "\<exists>s'. fold_opt ?f [0..<8] s = Some s' \<and> (\<forall>k. bit s' k = (bit s k \<and> (k < 8 \<longrightarrow> ?ok i k)))"
    by (rule fold_lanes) (rule avx2_lane_spec [OF pc i A])
  then obtain s1 where s1: "fold_opt ?f [0..<8] s = Some s1"
    and b1: "\<forall>k. bit s1 k = (bit s k \<and> (k < 8 \<longrightarrow> ?ok i k))" by blast
  have unf: "avx2_prime_loop (i # is) A B_start data s
      = (if s1 = 0 then Some s1 else avx2_prime_loop is A B_start data s1)"
    using r(1) [OF A] r(3) precompute_create_Some(9) [OF pc] i by (simp add: s1)
  show ?case
  proof (cases "s1 = 0")
    case True
    then have "\<forall>k. \<not> bit s1 k" by simp
    then have "\<forall>k<8. \<not> (bit s k \<and> ?ok i k)" using b1 by auto
    then show ?thesis using True unf by auto
  next
    case False
    from Cons.IH [OF rest, of s1] obtain s2 where
      s2: "avx2_prime_loop is A B_start data s1 = Some s2"
      and b2: "\<forall>k<8. bit s2 k = (bit s1 k \<and> (\<forall>i\<in>set is. ?ok i k))" by blast
    have "\<forall>k<8. bit s2 k = (bit s k \<and> (\<forall>j\<in>set (i # is). ?ok j k))"
      using b1 b2 by auto
    then show ?thesis using False unf s2 by auto
  qed
qed

lemma sieve_survives_avx2_8_spec:
  assumes pc: "precompute_create x y z A_max B_max = Some data" and A: "A \<le> A_max"
  shows "\<exists>s. sieve_survives_avx2_8 A B_start data = Some s \<and>
       (\<forall>l<8. bit s l = (B_start + word_of_nat l \<le> B_max \<and>
                          (\<forall>i<20. sieve_admits x y z A (B_start + word_of_nat l) i)))"
proof -
  have "\<forall>i\<in>set [0..<20]. i < 20" by simp
  from avx2_prime_loop_spec [OF pc A this, of B_start 255]
  obtain s where s: "avx2_prime_loop [0..<20] A B_start data 255 = Some s"
    and b: "\<forall>k<8. bit s k = (bit (255 :: u8) k \<and> (\<forall>i\<in>set [0..<20].
          B_start + word_of_nat k \<le> B_max \<and> sieve_admits x y z A (B_start + word_of_nat k) i))"
    by blast
  have full: "bit (255 :: u8) k" if "k < 8" for k
  proof -
    have e: "(255 :: u8) = mask 8" by (simp add: mask_eq_exp_minus_1)
    show ?thesis unfolding e bit_mask_iff using that by simp
  qed
  have split: "(\<forall>i\<in>set [0..<20]. P \<and> Q i) = (P \<and> (\<forall>i<20. Q i))" for P and Q :: "nat \<Rightarrow> bool"
  proof -
    have "(0::nat) \<in> set [0..<20]" by simp
    then show ?thesis by (metis atLeastLessThan_iff set_upt zero_le)
  qed
  have "\<forall>l<8. bit s l = (B_start + word_of_nat l \<le> B_max \<and>
                          (\<forall>i<20. sieve_admits x y z A (B_start + word_of_nat l) i))"
    using b full unfolding split by simp
  then show ?thesis
    using s by (simp add: sieve_survives_avx2_8_def NUM_SIEVE_PRIMES_def)
qed

lemma fold_opt_count:
  "(\<And>x c. x \<in> set xs \<Longrightarrow> f x c = Some (c + word_of_nat (n x))) \<Longrightarrow>
     fold_opt f xs (c::u64) = Some (c + word_of_nat (sum_list (map n xs)))"
proof (induction xs arbitrary: c)
  case Nil
  show ?case by simp
next
  case (Cons a xs)
  have "f a c = Some (c + word_of_nat (n a))" by (rule Cons.prems) simp
  moreover have "fold_opt f xs (c + word_of_nat (n a))
      = Some (c + word_of_nat (n a) + word_of_nat (sum_list (map n xs)))"
    by (rule Cons.IH) (simp add: Cons.prems)
  ultimately show ?case by (simp add: add.assoc)
qed

lemma sum_list_indicator: "sum_list (map (\<lambda>x. if P x then 1 else 0) xs) = length (filter P xs)"
  by (induction xs) simp_all

lemma length_filter_product:
  "length (filter (\<lambda>(a, b). P a b) (List.product xs ys))
     = sum_list (map (\<lambda>a. length (filter (P a) ys)) xs)"
proof (induction xs)
  case Nil
  show ?case by simp
next
  case (Cons a xs)
  have "length (filter (\<lambda>(a, b). P a b) (map (Pair a) ys)) = length (filter (P a) ys)"
    by (simp add: filter_map comp_def)
  with Cons show ?case by simp
qed

lemma word_of_nat_inj_u64:
  assumes "a < 2 ^ 64" and "b < 2 ^ 64" and "(word_of_nat a :: u64) = word_of_nat b"
  shows "a = b"
proof -
  have ua: "unat (word_of_nat a :: u64) = a"
    using assms(1) by (simp add: unat_of_nat)
  have ub: "unat (word_of_nat b :: u64) = b"
    using assms(2) by (simp add: unat_of_nat)
  have "unat (word_of_nat a :: u64) = unat (word_of_nat b :: u64)"
    by (simp only: assms(3))
  then show ?thesis by (simp only: ua ub)
qed

lemma distinct_word_range: "hi \<noteq> - 1 \<Longrightarrow> distinct (word_range lo hi)"
proof -
  assume ne: "hi \<noteq> - 1"
  have hi: "unat hi < 2 ^ 64 - 1" by (rule unat_lt_max [OF ne])
  have "inj_on (word_of_nat :: nat \<Rightarrow> u64) {unat lo ..< Suc (unat hi)}"
  proof (rule inj_onI)
    fix a b assume a: "a \<in> {unat lo ..< Suc (unat hi)}" and b: "b \<in> {unat lo ..< Suc (unat hi)}"
      and eq: "(word_of_nat a :: u64) = word_of_nat b"
    have "a < Suc (unat hi)" "b < Suc (unat hi)" using a b by auto
    then have "a < 2 ^ 64" "b < 2 ^ 64" using hi by linarith+
    then show "a = b" using eq by (rule word_of_nat_inj_u64)
  qed
  then have "inj_on (word_of_nat :: nat \<Rightarrow> u64) (set [unat lo ..< Suc (unat hi)])"
    by (simp only: set_upt)
  moreover have "distinct [unat lo ..< Suc (unat hi)]" by (rule distinct_upt)
  ultimately show ?thesis unfolding word_range_def by (simp only: distinct_map simp_thms)
qed

lemma gcd64_eq_1: "(gcd64 A B = Some 1) = (gcd (unat A) (unat B) = 1)"
proof -
  have "gcd (unat A) (unat B) < 2 ^ 64"
  proof (cases "unat A = 0")
    case True
    then show ?thesis using unsigned_less [of B, where ?'a = nat] by simp
  next
    case False
    then have "gcd (unat A) (unat B) \<le> unat A" by (intro gcd_le1_nat)
    then show ?thesis using unsigned_less [of A, where ?'a = nat] by simp
  qed
  then have "unat (word_of_nat (gcd (unat A) (unat B)) :: u64) = gcd (unat A) (unat B)"
    by (simp add: unat_of_nat)
  then have "((word_of_nat (gcd (unat A) (unat B)) :: u64) = 1) = (gcd (unat A) (unat B) = 1)"
    by (metis unat_1 word_unat_eq_iff)
  then show ?thesis by (simp add: gcd64_correct)
qed

lemma count_sieve_survivors_list:
  assumes pc: "precompute_create x y z A_max B_max = Some data"
    and A: "A_end \<le> A_max" and B: "B_end \<le> B_max"
  shows "count_sieve_survivors A_start A_end B_start B_end data =
     Some (word_of_nat (length (filter
        (\<lambda>(A, B). gcd64 A B = Some 1 \<and> sieve_survives_scalar A B data = Some True)
        (List.product (word_range A_start A_end) (word_range B_start B_end)))))"
proof -
  note f = precompute_create_Some [OF pc]
  have ae: "A_end \<noteq> - 1" using A f(3) by (metis word_order.extremum_unique)
  have be: "B_end \<noteq> - 1" using B f(4) by (metis word_order.extremum_unique)
  let ?P = "\<lambda>A B. gcd64 A B = Some 1 \<and> sieve_survives_scalar A B data = Some True"
  let ?body = "\<lambda>A B (count::u64). do {
             g \<leftarrow> gcd64 A B;
             if g = 1 then do {
               survives \<leftarrow> sieve_survives_scalar A B data;
               Some (if survives then count + 1 else count)
             } else Some count
           }"
  have body: "?body a b c = Some (c + word_of_nat (if ?P a b then 1 else 0))"
    if a: "a \<in> set (word_range A_start A_end)" and b: "b \<in> set (word_range B_start B_end)"
    for a b c
  proof -
    have "a \<le> A_max" "b \<le> B_max"
      using a b A B by (auto simp: set_word_range [OF ae] set_word_range [OF be])
    from sieve_survives_scalar_spec [OF pc this]
    show ?thesis by (auto simp: gcd64_correct)
  qed
  have inner: "for_le 1 B_start B_end (?body a) c
      = Some (c + word_of_nat (length (filter (?P a) (word_range B_start B_end))))"
    if a: "a \<in> set (word_range A_start A_end)" for a c
  proof -
    have "fold_opt (?body a) (word_range B_start B_end) c
      = Some (c + word_of_nat (sum_list (map (\<lambda>b. if ?P a b then 1 else 0) (word_range B_start B_end))))"
      by (rule fold_opt_count [where n = "\<lambda>b. if ?P a b then 1 else 0"]) (rule body [OF a])
    then show ?thesis
      by (simp only: for_le_unroll [OF be] sum_list_indicator)
  qed
  have "fold_opt (\<lambda>A. for_le 1 B_start B_end (?body A)) (word_range A_start A_end) 0
      = Some (0 + word_of_nat (sum_list (map (\<lambda>a. length (filter (?P a) (word_range B_start B_end)))
          (word_range A_start A_end))))"
    by (rule fold_opt_count [where n = "\<lambda>a. length (filter (?P a) (word_range B_start B_end))"])
      (rule inner)
  then have "count_sieve_survivors A_start A_end B_start B_end data
      = Some (word_of_nat (sum_list (map (\<lambda>a. length (filter (?P a) (word_range B_start B_end)))
          (word_range A_start A_end))))"
    by (simp add: count_sieve_survivors_def for_le_unroll [OF ae])
  then show ?thesis by (simp only: length_filter_product)
qed

lemma fnv_constants: "(0x100000001B3 :: u64) = 1099511628211" "(0xCBF29CE484222325 :: u64) = 14695981039346656037"
  by simp_all

lemma integrity_hash_fnv:
  "integrity_hash params results =
     fnv1a64 [ucast (sp_x params), ucast (sp_y params), ucast (sp_z params),
              sp_A_start params, sp_A_max params, sp_B_start params, sp_B_max params,
              sp_C_max params, total_pairs results, gcd_filtered results,
              mod_filtered results, exact_checks results, power_hits results,
              primitive_hits results]"
  by (simp add: integrity_hash_def fnv1a64_def fnv1a_absorb_def Let_def)

lemma hex_value_digit: "d < 16 \<Longrightarrow> hex_value (hex_digit d) = Some d"
proof -
  assume "d < 16"
  then have "d = 0 \<or> d = 1 \<or> d = 2 \<or> d = 3 \<or> d = 4 \<or> d = 5 \<or> d = 6 \<or> d = 7 \<or> d = 8
      \<or> d = 9 \<or> d = 10 \<or> d = 11 \<or> d = 12 \<or> d = 13 \<or> d = 14 \<or> d = 15"
    by arith
  then show ?thesis by (elim disjE) (simp_all add: hex_digit_def hex_value_def)
qed

lemma hex_digit_lower: "d < 16 \<Longrightarrow> hex_digit d \<in> set ''0123456789abcdef''"
  unfolding hex_digit_def by (rule nth_mem) simp

lemma read_hex_Cons_digit:
  "d < 16 \<Longrightarrow> read_hex (hex_digit d # cs) acc = read_hex cs (16 * acc + d)"
  by (simp add: hex_value_digit)

lemma read_hex_digits:
  "read_hex (map (\<lambda>i. hex_digit (unat (drop_bit (4 * i) w AND 15))) (rev [0..<n])) acc
     = Some (16 ^ n * acc + unat (take_bit (4 * n) (w::u64)))"
proof (induction n arbitrary: acc)
  case 0
  show ?case by simp
next
  case (Suc n)
  let ?d = "unat (drop_bit (4 * n) w AND 15)"
  have d: "?d = unat w div 2 ^ (4 * n) mod 16"
  proof -
    have "(15 :: u64) = mask 4" by (simp add: mask_eq_exp_minus_1)
    then have "drop_bit (4 * n) w AND 15 = take_bit 4 (drop_bit (4 * n) w)"
      by (simp only: take_bit_eq_mask)
    then have "?d = take_bit 4 (drop_bit (4 * n) (unat w))"
      by (simp only: unsigned_take_bit_eq unat_drop_bit_eq)
    also have "\<dots> = unat w div 2 ^ (4 * n) mod 16"
      by (simp add: take_bit_eq_mod drop_bit_eq_div)
    finally show ?thesis .
  qed
  then have d16: "?d < 16" by simp
  have tb: "unat (take_bit (4 * Suc n) w) = 16 ^ n * ?d + unat (take_bit (4 * n) w)"
  proof -
    have "unat w mod 2 ^ (4 * n + 4) = 2 ^ (4 * n) * (unat w div 2 ^ (4 * n) mod 2 ^ 4) + unat w mod 2 ^ (4 * n)"
      by (simp add: power_add mod_mult2_eq)
    moreover have "(2::nat) ^ (4 * n) = 16 ^ n" by (simp add: power_mult)
    moreover have "unat (take_bit k w) = unat w mod 2 ^ k" for k
    proof -
      have "unat (take_bit k w) = take_bit k (unat w)" by (simp only: unsigned_take_bit_eq)
      then show ?thesis by (simp only: take_bit_eq_mod)
    qed
    ultimately show ?thesis
      by (simp add: d add.commute)
  qed
  have "map (\<lambda>i. hex_digit (unat (drop_bit (4 * i) w AND 15))) (rev [0..<Suc n])
      = hex_digit ?d # map (\<lambda>i. hex_digit (unat (drop_bit (4 * i) w AND 15))) (rev [0..<n])"
    by simp
  then have "read_hex (map (\<lambda>i. hex_digit (unat (drop_bit (4 * i) w AND 15))) (rev [0..<Suc n])) acc
      = read_hex (map (\<lambda>i. hex_digit (unat (drop_bit (4 * i) w AND 15))) (rev [0..<n])) (16 * acc + ?d)"
    by (simp only: read_hex_Cons_digit [OF d16])
  also have "\<dots> = Some (16 ^ n * (16 * acc + ?d) + unat (take_bit (4 * n) w))"
    by (rule Suc.IH)
  finally have "read_hex (map (\<lambda>i. hex_digit (unat (drop_bit (4 * i) w AND 15))) (rev [0..<Suc n])) acc
      = Some (16 ^ n * (16 * acc + ?d) + unat (take_bit (4 * n) w))" .
  moreover have "16 ^ n * (16 * acc + ?d) + unat (take_bit (4 * n) w)
      = 16 ^ Suc n * acc + unat (take_bit (4 * Suc n) w)"
    unfolding tb by (simp add: algebra_simps)
  ultimately show ?case by (simp only:)
qed

lemma printf_016x64_spec:
  "length (printf_016x64 w) = 16"
  "set (printf_016x64 w) \<subseteq> set ''0123456789abcdef''"
  "read_hex (printf_016x64 w) 0 = Some (unat w)"
proof -
  show "length (printf_016x64 w) = 16" by (simp add: printf_016x64_def)
  show "set (printf_016x64 w) \<subseteq> set ''0123456789abcdef''"
  proof
    fix c assume "c \<in> set (printf_016x64 w)"
    then obtain i where c: "c = hex_digit (unat (drop_bit (4 * i) w AND 15))"
      unfolding printf_016x64_def by auto
    have "drop_bit (4 * i) w AND 15 \<le> 15" by (rule word_and_le1)
    then have "unat (drop_bit (4 * i) w AND 15) < 16" by (simp add: word_le_nat_alt)
    then show "c \<in> set ''0123456789abcdef''" unfolding c by (rule hex_digit_lower)
  qed
  have "take_bit (4 * 16) w = w" by (simp add: take_bit_word_eq_self)
  then show "read_hex (printf_016x64 w) 0 = Some (unat w)"
    using read_hex_digits [of w 16 0] by (simp add: printf_016x64_def)
qed


lemma fold_opt_inv:
  assumes "fold_opt f xs s = Some s'" and "P s"
    and "\<And>x s s'. x \<in> set xs \<Longrightarrow> P s \<Longrightarrow> f x s = Some s' \<Longrightarrow> P s'"
  shows "P s'"
  using assms
proof (induction xs arbitrary: s)
  case Nil
  then show ?case by simp
next
  case (Cons a xs)
  from Cons.prems(1) obtain s1 where s1: "f a s = Some s1" and rest: "fold_opt f xs s1 = Some s'"
    by (auto simp: bind_eq_Some_conv)
  have p1: "P s1" using Cons.prems(3) [OF _ Cons.prems(2) s1] by simp
  show ?case
  proof (rule Cons.IH [OF rest p1])
    fix x s s' assume "x \<in> set xs" "P s" "f x s = Some s'"
    then show "P s'" using Cons.prems(3) [of x s s'] by simp
  qed
qed

lemma for_le_inv:
  assumes run: "for_le step v hi body s = Some s'" and init: "P s"
    and step: "\<And>v s s'. v \<le> hi \<Longrightarrow> P s \<Longrightarrow> body v s = Some s' \<Longrightarrow> P s'"
  shows "P s'"
proof -
  let ?Q = "\<lambda>(step::u64) (v::u64) hi body s s'.
          (\<forall>v s s'. v \<le> hi \<longrightarrow> P s \<longrightarrow> body v s = Some s' \<longrightarrow> P s') \<longrightarrow> P s \<longrightarrow> P s'"
  have "?Q step v hi body s s'"
  proof (rule for_le.raw_induct [where P = ?Q, OF _ run])
    fix f :: "u64 \<Rightarrow> u64 \<Rightarrow> u64 \<Rightarrow> (u64 \<Rightarrow> 'a \<Rightarrow> 'a option) \<Rightarrow> 'a \<Rightarrow> 'a option"
      and step v hi body s y
    assume IH: "\<And>step v hi body s y. f step v hi body s = Some y \<Longrightarrow> ?Q step v hi body s y"
      and eq: "(if v \<le> hi then body v s \<bind> f step (v + step) hi body else Some s) = Some y"
    show "?Q step v hi body s y"
    proof (intro impI)
      assume st: "\<forall>v s s'. v \<le> hi \<longrightarrow> P s \<longrightarrow> body v s = Some s' \<longrightarrow> P s'" and p: "P s"
      show "P y"
      proof (cases "v \<le> hi")
        case True
        with eq obtain s1 where s1: "body v s = Some s1" and r: "f step (v + step) hi body s1 = Some y"
          by (auto simp: bind_eq_Some_conv)
        have "P s1" using st True p s1 by blast
        with IH [OF r] st show ?thesis by blast
      next
        case False
        with eq p show ?thesis by simp
      qed
    qed
  qed
  with init step show ?thesis by blast
qed

lemma announce_counters [simp]:
  "a_tested (announce h st) = a_tested st" "a_gcd (announce h st) = a_gcd st"
  "a_mod (announce h st) = a_mod st" "a_exact (announce h st) = a_exact st"
  "global_tested (announce h st) = global_tested st"
  "global_gcd_skips (announce h st) = global_gcd_skips st"
  "global_mod_skips (announce h st) = global_mod_skips st"
  "global_exact_checks (announce h st) = global_exact_checks st"
  by (simp_all add: announce_def)

lemma counters_step:
  fixes g m e t :: u64
  assumes "g + m + e = t"
  shows "g + 1 + m + e = t + 1" and "g + (m + 1) + e = t + 1" and "g + m + (e + 1) = t + 1"
  using assms [symmetric] by (simp_all add: ac_simps)

lemma counters_ok_updates:
  assumes "a_counters_ok st \<and> global_counters_ok st"
  shows "a_counters_ok (st\<lparr> a_tested := a_tested st + 1, a_gcd := a_gcd st + 1 \<rparr>)
       \<and> global_counters_ok (st\<lparr> a_tested := a_tested st + 1, a_gcd := a_gcd st + 1 \<rparr>)"
    and "a_counters_ok (st\<lparr> a_tested := a_tested st + 1, a_mod := a_mod st + 1 \<rparr>)
       \<and> global_counters_ok (st\<lparr> a_tested := a_tested st + 1, a_mod := a_mod st + 1 \<rparr>)"
    and "a_counters_ok (st\<lparr> a_tested := a_tested st + 1, a_exact := a_exact st + 1 \<rparr>)
       \<and> global_counters_ok (st\<lparr> a_tested := a_tested st + 1, a_exact := a_exact st + 1 \<rparr>)"
  using assms counters_step [of "a_gcd st" "a_mod st" "a_exact st" "a_tested st"]
  by (simp_all add: a_counters_ok_def global_counters_ok_def)

lemma counters_ok_hits [simp]:
  "a_counters_ok (announce h st) = a_counters_ok st"
  "global_counters_ok (announce h st) = global_counters_ok st"
  "a_counters_ok (st\<lparr> local_hits := l \<rparr>) = a_counters_ok st"
  "global_counters_ok (st\<lparr> local_hits := l \<rparr>) = global_counters_ok st"
  "a_counters_ok (st\<lparr> the_results := r \<rparr>) = a_counters_ok st"
  "global_counters_ok (st\<lparr> the_results := r \<rparr>) = global_counters_ok st"
  by (simp_all add: a_counters_ok_def global_counters_ok_def)

lemma search_pair_scalar_cases:
  assumes run: "search_pair_scalar params data A B st = Some st'"
  obtains (gcd_skip) d where "gcd64 A B = Some d" "d > 1"
      "st' = st\<lparr> a_tested := a_tested st + 1, a_gcd := a_gcd st + 1 \<rparr>"
  | (mod_skip) d where "gcd64 A B = Some d" "\<not> d > 1"
      "sieve_survives_scalar A B data = Some False"
      "st' = st\<lparr> a_tested := a_tested st + 1, a_mod := a_mod st + 1 \<rparr>"
  | (miss) d C g where "gcd64 A B = Some d" "\<not> d > 1"
      "sieve_survives_scalar A B data = Some True"
      "check_beal_hit_gmp A B (sp_x params) (sp_y params) (sp_z params) (sp_C_max params) (0, 0)
         = Some (False, C, g)"
      "st' = st\<lparr> a_tested := a_tested st + 1, a_exact := a_exact st + 1 \<rparr>"
  | (hit) d C g where "gcd64 A B = Some d" "\<not> d > 1"
      "sieve_survives_scalar A B data = Some True"
      "check_beal_hit_gmp A B (sp_x params) (sp_y params) (sp_z params) (sp_C_max params) (0, 0)
         = Some (True, C, g)"
      "st' = announce (make_hit params A B C g)
               (if length (local_hits st) < 64
                then st\<lparr> a_tested := a_tested st + 1, a_exact := a_exact st + 1,
                        local_hits := local_hits st @ [make_hit params A B C g] \<rparr>
                else st\<lparr> a_tested := a_tested st + 1, a_exact := a_exact st + 1 \<rparr>)"
proof -
  from run obtain d where d: "gcd64 A B = Some d"
    by (auto simp: search_pair_scalar_def Let_def bind_eq_Some_conv)
  show thesis
  proof (cases "d > 1")
    case True
    with run d have "st' = st\<lparr> a_tested := a_tested st + 1, a_gcd := a_gcd st + 1 \<rparr>"
      by (simp add: search_pair_scalar_def Let_def)
    with d True show thesis by (rule gcd_skip)
  next
    case False
    with run d obtain survives where s: "sieve_survives_scalar A B data = Some survives"
      by (auto simp: search_pair_scalar_def Let_def bind_eq_Some_conv)
    show thesis
    proof (cases survives)
      case nosurv: False
      with run d s False have "st' = st\<lparr> a_tested := a_tested st + 1, a_mod := a_mod st + 1 \<rparr>"
        by (simp add: search_pair_scalar_def Let_def)
      with d False s nosurv show thesis by (intro mod_skip) simp_all
    next
      case surv: True
      with run d s False obtain found C g where
        c: "check_beal_hit_gmp A B (sp_x params) (sp_y params) (sp_z params) (sp_C_max params) (0, 0)
            = Some (found, C, g)"
        by (auto simp: search_pair_scalar_def Let_def bind_eq_Some_conv)
      show thesis
      proof (cases found)
        case True
        with run d s False surv c
        have "st' = announce (make_hit params A B C g)
               (if length (local_hits st) < 64
                then st\<lparr> a_tested := a_tested st + 1, a_exact := a_exact st + 1,
                        local_hits := local_hits st @ [make_hit params A B C g] \<rparr>
                else st\<lparr> a_tested := a_tested st + 1, a_exact := a_exact st + 1 \<rparr>)"
          by (auto simp: search_pair_scalar_def Let_def)
        with d False s surv c True show thesis by (intro hit) simp_all
      next
        case nf: False
        with run d s False surv c
        have "st' = st\<lparr> a_tested := a_tested st + 1, a_exact := a_exact st + 1 \<rparr>"
          by (simp add: search_pair_scalar_def Let_def)
        with d False s surv c nf show thesis by (intro miss) simp_all
      qed
    qed
  qed
qed

lemma search_pair_avx2_cases:
  assumes run: "search_pair_avx2 params A B survivors lane st = Some st'"
  obtains (gcd_skip) d where "gcd64 A B = Some d" "d > 1"
      "st' = st\<lparr> a_tested := a_tested st + 1, a_gcd := a_gcd st + 1 \<rparr>"
  | (mod_skip) d where "gcd64 A B = Some d" "\<not> d > 1"
      "st' = st\<lparr> a_tested := a_tested st + 1, a_mod := a_mod st + 1 \<rparr>"
  | (miss) d C g where "gcd64 A B = Some d" "\<not> d > 1"
      "check_beal_hit_gmp A B (sp_x params) (sp_y params) (sp_z params) (sp_C_max params) (0, 0)
         = Some (False, C, g)"
      "st' = st\<lparr> a_tested := a_tested st + 1, a_exact := a_exact st + 1 \<rparr>"
  | (hit) d C g where "gcd64 A B = Some d" "\<not> d > 1"
      "check_beal_hit_gmp A B (sp_x params) (sp_y params) (sp_z params) (sp_C_max params) (0, 0)
         = Some (True, C, g)"
      "length (local_hits st) < 64"
      "st' = announce (make_hit params A B C g)
               (st\<lparr> a_tested := a_tested st + 1, a_exact := a_exact st + 1,
                    local_hits := local_hits st @ [make_hit params A B C g] \<rparr>)"
  | (hit_flush) d C g results where "gcd64 A B = Some d" "\<not> d > 1"
      "check_beal_hit_gmp A B (sp_x params) (sp_y params) (sp_z params) (sp_C_max params) (0, 0)
         = Some (True, C, g)"
      "\<not> length (local_hits st) < 64"
      "flush_local_hits st = Some results"
      "st' = announce (make_hit params A B C g)
               (st\<lparr> a_tested := a_tested st + 1, a_exact := a_exact st + 1,
                    the_results := results, local_hits := [make_hit params A B C g] \<rparr>)"
proof -
  from run obtain d where d: "gcd64 A B = Some d"
    by (auto simp: search_pair_avx2_def Let_def bind_eq_Some_conv)
  show thesis
  proof (cases "d > 1")
    case True
    with run d have "st' = st\<lparr> a_tested := a_tested st + 1, a_gcd := a_gcd st + 1 \<rparr>"
      by (simp add: search_pair_avx2_def Let_def)
    with d True show thesis by (rule gcd_skip)
  next
    case False
    show thesis
    proof (cases "survivors AND push_bit lane 1 = 0")
      case dead: True
      with run d False have "st' = st\<lparr> a_tested := a_tested st + 1, a_mod := a_mod st + 1 \<rparr>"
        by (simp add: search_pair_avx2_def Let_def)
      with d False show thesis by (rule mod_skip)
    next
      case alive: False
      with run d False obtain found C g where
        c: "check_beal_hit_gmp A B (sp_x params) (sp_y params) (sp_z params) (sp_C_max params) (0, 0)
            = Some (found, C, g)"
        by (auto simp: search_pair_avx2_def Let_def bind_eq_Some_conv)
      let ?st2 = "st\<lparr> a_tested := a_tested st + 1, a_exact := a_exact st + 1 \<rparr>"
      have fl: "flush_local_hits ?st2 = flush_local_hits st"
        by (simp add: flush_local_hits_def)
      show thesis
      proof (cases found)
        case nf: False
        with run d False alive c have "st' = ?st2"
          by (simp add: search_pair_avx2_def Let_def)
        with d False c nf show thesis by (intro miss) simp_all
      next
        case True
        show thesis
        proof (cases "length (local_hits st) < 64")
          case room: True
          with run d False alive c True
          have "st' = announce (make_hit params A B C g)
               (st\<lparr> a_tested := a_tested st + 1, a_exact := a_exact st + 1,
                    local_hits := local_hits st @ [make_hit params A B C g] \<rparr>)"
            by (simp add: search_pair_avx2_def Let_def)
          with d False c True room show thesis by (intro hit) simp_all
        next
          case full: False
          with run d False alive c True obtain results where
            f: "flush_local_hits st = Some results"
            and "st' = announce (make_hit params A B C g)
               (st\<lparr> a_tested := a_tested st + 1, a_exact := a_exact st + 1,
                    the_results := results, local_hits := [make_hit params A B C g] \<rparr>)"
            by (auto simp: search_pair_avx2_def Let_def fl bind_eq_Some_conv)
          with d False c True full show thesis by (intro hit_flush) simp_all
        qed
      qed
    qed
  qed
qed

lemma search_pair_scalar_counters:
  assumes run: "search_pair_scalar params data A B st = Some st'"
    and inv: "a_counters_ok st \<and> global_counters_ok st"
  shows "a_counters_ok st' \<and> global_counters_ok st'"
  using run
proof (cases rule: search_pair_scalar_cases)
  case gcd_skip
  with counters_ok_updates(1) [OF inv] show ?thesis by simp
next
  case mod_skip
  with counters_ok_updates(2) [OF inv] show ?thesis by simp
next
  case miss
  with counters_ok_updates(3) [OF inv] show ?thesis by simp
next
  case hit
  with counters_ok_updates(3) [OF inv] show ?thesis by simp
qed

lemma search_pair_avx2_counters:
  assumes run: "search_pair_avx2 params A B survivors lane st = Some st'"
    and inv: "a_counters_ok st \<and> global_counters_ok st"
  shows "a_counters_ok st' \<and> global_counters_ok st'"
  using run
proof (cases rule: search_pair_avx2_cases)
  case gcd_skip
  with counters_ok_updates(1) [OF inv] show ?thesis by simp
next
  case mod_skip
  with counters_ok_updates(2) [OF inv] show ?thesis by simp
next
  case miss
  with counters_ok_updates(3) [OF inv] show ?thesis by simp
next
  case hit
  with counters_ok_updates(3) [OF inv] show ?thesis by simp
next
  case hit_flush
  with counters_ok_updates(3) [OF inv] show ?thesis by simp
qed

lemma search_lanes_counters:
  "search_lanes lanes params A B survivors st = Some st' \<Longrightarrow>
   a_counters_ok st \<and> global_counters_ok st \<Longrightarrow> a_counters_ok st' \<and> global_counters_ok st'"
proof (induction lanes arbitrary: st)
  case Nil
  then show ?case by simp
next
  case (Cons lane lanes)
  show ?case
  proof (cases "B + word_of_nat lane \<le> sp_B_max params")
    case True
    with Cons.prems(1) obtain st1 where
      s1: "search_pair_avx2 params A (B + word_of_nat lane) survivors lane st = Some st1"
      and rest: "search_lanes lanes params A B survivors st1 = Some st'"
      by (auto simp: bind_eq_Some_conv)
    from search_pair_avx2_counters [OF s1 Cons.prems(2)] Cons.IH [OF rest] show ?thesis by simp
  next
    case False
    with Cons.prems show ?thesis by simp
  qed
qed

lemma search_A_split:
  assumes "search_A have_avx2 params data A st = Some st'"
  obtains st1 where
    "(if have_avx2
      then for_le 8 (sp_B_start params) (sp_B_max params)
             (\<lambda>B st. sieve_survives_avx2_8 A B data \<bind>
                (\<lambda>survivors. search_lanes [0..<8] params A B survivors st))
             (st\<lparr> a_tested := 0, a_gcd := 0, a_mod := 0, a_exact := 0 \<rparr>)
      else for_le 1 (sp_B_start params) (sp_B_max params)
             (search_pair_scalar params data A)
             (st\<lparr> a_tested := 0, a_gcd := 0, a_mod := 0, a_exact := 0 \<rparr>)) = Some st1"
    and "st' = st1\<lparr> global_tested := global_tested st1 + a_tested st1,
               global_gcd_skips := global_gcd_skips st1 + a_gcd st1,
               global_mod_skips := global_mod_skips st1 + a_mod st1,
               global_exact_checks := global_exact_checks st1 + a_exact st1 \<rparr>"
  using assms by (auto simp: search_A_def Let_def bind_eq_Some_conv)

lemma counters_merge:
  fixes g m e t ag am ae at' :: u64
  assumes "g + m + e = t" and "ag + am + ae = at'"
  shows "(g + ag) + (m + am) + (e + ae) = t + at'"
  using assms [symmetric] by (simp add: ac_simps)

lemma search_A_counters:
  assumes run: "search_A have_avx2 params data A st = Some st'" and inv: "global_counters_ok st"
  shows "global_counters_ok st'"
  using run
proof (cases rule: search_A_split)
  case (1 st1)
  let ?st0 = "st\<lparr> a_tested := 0, a_gcd := 0, a_mod := 0, a_exact := 0 \<rparr>"
  have st0: "a_counters_ok ?st0 \<and> global_counters_ok ?st0"
    using inv by (simp add: a_counters_ok_def global_counters_ok_def)
  have "a_counters_ok st1 \<and> global_counters_ok st1"
  proof (cases have_avx2)
    case True
    with 1(1) have l: "for_le 8 (sp_B_start params) (sp_B_max params)
             (\<lambda>B st. sieve_survives_avx2_8 A B data \<bind>
                (\<lambda>survivors. search_lanes [0..<8] params A B survivors st)) ?st0 = Some st1"
      by simp
    show ?thesis
    proof (rule for_le_inv [where P = "\<lambda>s. a_counters_ok s \<and> global_counters_ok s", OF l st0])
      fix v s s'
      assume p: "a_counters_ok s \<and> global_counters_ok s"
        and b: "sieve_survives_avx2_8 A v data \<bind>
                (\<lambda>survivors. search_lanes [0..<8] params A v survivors s) = Some s'"
      from b obtain sv where "search_lanes [0..<8] params A v sv s = Some s'"
        by (auto simp: bind_eq_Some_conv)
      then show "a_counters_ok s' \<and> global_counters_ok s'"
        using p by (rule search_lanes_counters)
    qed
  next
    case False
    with 1(1) have l: "for_le 1 (sp_B_start params) (sp_B_max params)
                   (search_pair_scalar params data A) ?st0 = Some st1" by simp
    show ?thesis
      by (rule for_le_inv [where P = "\<lambda>s. a_counters_ok s \<and> global_counters_ok s", OF l st0])
        (rule search_pair_scalar_counters)
  qed
  then show ?thesis
    using counters_merge [of "global_gcd_skips st1" "global_mod_skips st1" "global_exact_checks st1"
        "global_tested st1" "a_gcd st1" "a_mod st1" "a_exact st1" "a_tested st1"]
    by (simp add: 1(2) a_counters_ok_def global_counters_ok_def)
qed

lemma search_parallel_split:
  assumes "search_parallel have_avx2 True params = Some (results, notices)"
  obtains data st res where
    "precompute_create (sp_x params) (sp_y params) (sp_z params) (sp_A_max params)
       (sp_B_max params) = Some data"
    and "for_le 1 (sp_A_start params) (sp_A_max params) (search_A have_avx2 params data)
        (search_init results_init) = Some st"
    and "(if local_hits st \<noteq> [] then flush_local_hits st else Some (the_results st))
        = Some res"
    and "results = res\<lparr> total_pairs := global_tested st,
                                   gcd_filtered := global_gcd_skips st,
                                   mod_filtered := global_mod_skips st,
                                   exact_checks := global_exact_checks st,
                                   power_hits := word_of_nat (length (hits res)),
                                   primitive_hits := count_primitive (hits res) \<rparr>"
    and "notices = announced st"
proof -
  from assms obtain data where
    d: "precompute_create (sp_x params) (sp_y params) (sp_z params) (sp_A_max params)
       (sp_B_max params) = Some data"
    by (auto simp: search_parallel_def Let_def bind_eq_Some_conv)
  from assms d obtain st where
    l: "for_le 1 (sp_A_start params) (sp_A_max params) (search_A have_avx2 params data)
        (search_init results_init) = Some st"
    by (auto simp: search_parallel_def Let_def bind_eq_Some_conv)
  from assms d l obtain res where
    f: "(if local_hits st \<noteq> [] then flush_local_hits st else Some (the_results st)) = Some res"
    by (auto simp: search_parallel_def Let_def bind_eq_Some_conv)
  from assms d l f have "results = res\<lparr> total_pairs := global_tested st,
                                   gcd_filtered := global_gcd_skips st,
                                   mod_filtered := global_mod_skips st,
                                   exact_checks := global_exact_checks st,
                                   power_hits := word_of_nat (length (hits res)),
                                   primitive_hits := count_primitive (hits res) \<rparr>"
    and "notices = announced st"
    by (simp_all add: search_parallel_def Let_def)
  with d l f show thesis by (rule that)
qed

lemma search_parallel_counters:
  assumes "search_parallel have_avx2 alloc_ok params = Some (results, notices)"
  shows "gcd_filtered results + mod_filtered results + exact_checks results = total_pairs results"
proof (cases alloc_ok)
  case False
  with assms show ?thesis by (auto simp: search_parallel_def results_init_def)
next
  case True
  with assms have "search_parallel have_avx2 True params = Some (results, notices)" by simp
  then show ?thesis
  proof (cases rule: search_parallel_split)
    case (1 data st res)
    have "global_counters_ok (search_init results_init)"
      by (simp add: global_counters_ok_def search_init_def)
    with 1(2) have "global_counters_ok st"
      by (rule for_le_inv) (rule search_A_counters)
    then show ?thesis by (simp add: 1(4) global_counters_ok_def)
  qed
qed

lemma results_add_hit_Some:
  assumes "results_add_hit r h = Some r'"
  shows "hits r' = hits r @ [h]" and "capacity_ok r'"
  using assms
  by (auto simp: results_add_hit_def Let_def capacity_ok_def split: if_splits)

lemma flush_fold_hits:
  "fold_opt (\<lambda>hit results. results_add_hit results hit) hs r = Some r' \<Longrightarrow>
     hits r' = hits r @ hs \<and> (capacity_ok r \<longrightarrow> capacity_ok r')"
proof (induction hs arbitrary: r)
  case Nil
  then show ?case by simp
next
  case (Cons h hs)
  from Cons.prems obtain r1 where r1: "results_add_hit r h = Some r1"
    and rest: "fold_opt (\<lambda>hit results. results_add_hit results hit) hs r1 = Some r'"
    by (auto simp: bind_eq_Some_conv)
  from results_add_hit_Some [OF r1] Cons.IH [OF rest] show ?case by simp
qed

lemma flush_local_hits_Some:
  assumes "flush_local_hits st = Some r'" and "capacity_ok (the_results st)"
  shows "hits r' = stored_hits st" and "capacity_ok r'"
  using flush_fold_hits [of "local_hits st" "the_results st" r'] assms
  by (simp_all add: flush_local_hits_def stored_hits_def)

lemma unat_gcd_word:
  assumes "1 \<le> unat (c::u64)"
  shows "unat (word_of_nat (gcd n (unat c)) :: u64) = gcd n (unat c)"
proof -
  have "gcd n (unat c) \<le> unat c" using assms by (intro gcd_le2_nat) simp
  also have "unat c < 2 ^ 64" using unsigned_less [of c, where ?'a = nat] by simp
  finally show ?thesis by (simp add: unat_of_nat)
qed

lemma check_hit_gcd:
  assumes "check_beal_hit_gmp A B x y z C_max out = Some (True, C, g)"
  shows "unat g = gcd (unat A) (gcd (unat B) (unat C))" and "1 \<le> unat C"
proof -
  from assms have pos: "C > 0"
    and g: "Option.bind (gcd64 B C) (\<lambda>g1. Option.bind (gcd64 A g1) (\<lambda>g. Some g)) = Some g"
    by (auto simp: check_beal_hit_gmp_def Let_def split: option.splits if_splits)
  from pos show c1: "1 \<le> unat C" by (simp add: word_less_nat_alt)
  let ?g1 = "word_of_nat (gcd (unat B) (unat C)) :: u64"
  have u1: "unat ?g1 = gcd (unat B) (unat C)" by (rule unat_gcd_word [OF c1])
  have "gcd (unat B) (unat C) \<noteq> 0" using c1 by simp
  then have "1 \<le> gcd (unat B) (unat C)" by arith
  then have "1 \<le> unat ?g1" by (simp only: u1)
  from unat_gcd_word [OF this, of "unat A"]
  have "unat (word_of_nat (gcd (unat A) (unat ?g1)) :: u64) = gcd (unat A) (unat ?g1)" .
  moreover from g have "g = word_of_nat (gcd (unat A) (unat ?g1))"
    by (simp add: gcd64_correct)
  ultimately show "unat g = gcd (unat A) (gcd (unat B) (unat C))" by (simp add: u1)
qed

lemma gcd64_not_gt_1:
  assumes "gcd64 A B = Some d" and "\<not> d > 1" and "1 \<le> unat A"
  shows "gcd (unat A) (unat B) = 1"
proof -
  have "gcd (unat B) (unat A) \<le> unat A" using assms(3) by (intro gcd_le2_nat) simp
  then have le: "gcd (unat A) (unat B) \<le> unat A" by (simp add: gcd.commute)
  have "unat A < 2 ^ 64" using unsigned_less [of A, where ?'a = nat] by simp
  with le have "unat (word_of_nat (gcd (unat A) (unat B)) :: u64) = gcd (unat A) (unat B)"
    by (simp add: unat_of_nat)
  moreover from assms(1) have "d = word_of_nat (gcd (unat A) (unat B))"
    by (simp add: gcd64_correct)
  ultimately have ud: "unat d = gcd (unat A) (unat B)" by simp
  from assms(2) have "unat d \<le> 1" by (simp add: word_less_nat_alt not_less)
  then have "gcd (unat A) (unat B) \<le> 1" by (simp only: ud)
  moreover have "gcd (unat A) (unat B) \<noteq> 0" using assms(3) by simp
  ultimately show ?thesis by arith
qed

lemma search_hit_primitive:
  assumes "gcd64 A B = Some d" and "\<not> d > 1" and "1 \<le> unat A"
    and "check_beal_hit_gmp A B x y z C_max out = Some (True, C, g)"
  shows "g = 1"
proof -
  have "gcd (unat A) (gcd (unat B) (unat C)) = gcd (gcd (unat A) (unat B)) (unat C)"
    by (simp add: gcd.assoc)
  also have "\<dots> = 1" by (simp add: gcd64_not_gt_1 [OF assms(1-3)])
  finally have "unat g = 1" using check_hit_gcd(1) [OF assms(4)] by simp
  then show ?thesis by (metis unat_1 word_unat_eq_iff)
qed

lemma hits_ok_counters [simp]:
  "hits_ok (st\<lparr> a_tested := t \<rparr>) = hits_ok st"
  "hits_ok (st\<lparr> a_gcd := g \<rparr>) = hits_ok st"
  "hits_ok (st\<lparr> a_mod := m \<rparr>) = hits_ok st"
  "hits_ok (st\<lparr> a_exact := e \<rparr>) = hits_ok st"
  "hits_ok (st\<lparr> global_tested := t \<rparr>) = hits_ok st"
  "hits_ok (st\<lparr> global_gcd_skips := g \<rparr>) = hits_ok st"
  "hits_ok (st\<lparr> global_mod_skips := m \<rparr>) = hits_ok st"
  "hits_ok (st\<lparr> global_exact_checks := e \<rparr>) = hits_ok st"
  by (simp_all add: hits_ok_def stored_hits_def)

lemma hits_ok_add_local:
  assumes "hits_ok st" and "hit_gcd h = 1"
  shows "hits_ok (announce h (st\<lparr> local_hits := local_hits st @ [h] \<rparr>))"
  using assms by (simp add: hits_ok_def stored_hits_def announce_def)

lemma hits_ok_drop:
  assumes "hits_ok st" and "hit_gcd h = 1" and "local_hits st \<noteq> []"
  shows "hits_ok (announce h st)"
  using assms by (simp add: hits_ok_def stored_hits_def announce_def)

lemma hits_ok_flush:
  assumes "hits_ok st" and "hit_gcd h = 1" and "flush_local_hits st = Some results"
  shows "hits_ok (announce h (st\<lparr> the_results := results, local_hits := [h] \<rparr>))"
proof -
  from assms(1) have c: "capacity_ok (the_results st)" by (simp add: hits_ok_def)
  from flush_local_hits_Some [OF assms(3) c] assms(1,2) show ?thesis
    by (simp add: hits_ok_def stored_hits_def announce_def)
qed

lemma hit_gcd_make_hit [simp]: "hit_gcd (make_hit params A B C g) = g"
  by (simp add: make_hit_def)

lemma search_pair_scalar_hits:
  assumes run: "search_pair_scalar params data A B st = Some st'"
    and inv: "hits_ok st" and A: "1 \<le> unat A"
  shows "hits_ok st'"
  using run
proof (cases rule: search_pair_scalar_cases)
  case gcd_skip
  with inv show ?thesis by simp
next
  case mod_skip
  with inv show ?thesis by simp
next
  case miss
  with inv show ?thesis by simp
next
  case (hit d C g)
  have g: "hit_gcd (make_hit params A B C g) = 1"
    using search_hit_primitive [OF hit(1,2) A hit(4)] by simp
  let ?st2 = "st\<lparr> a_tested := a_tested st + 1, a_exact := a_exact st + 1 \<rparr>"
  have i2: "hits_ok ?st2" using inv by simp
  show ?thesis
  proof (cases "length (local_hits st) < 64")
    case True
    with hit(5) hits_ok_add_local [OF i2 g] show ?thesis by simp
  next
    case False
    then have "local_hits ?st2 \<noteq> []" by auto
    from hits_ok_drop [OF i2 g this] hit(5) False show ?thesis by simp
  qed
qed

lemma search_pair_avx2_hits:
  assumes run: "search_pair_avx2 params A B survivors lane st = Some st'"
    and inv: "hits_ok st" and A: "1 \<le> unat A"
  shows "hits_ok st'"
  using run
proof (cases rule: search_pair_avx2_cases)
  case gcd_skip
  with inv show ?thesis by simp
next
  case mod_skip
  with inv show ?thesis by simp
next
  case miss
  with inv show ?thesis by simp
next
  case (hit d C g)
  have g: "hit_gcd (make_hit params A B C g) = 1"
    using search_hit_primitive [OF hit(1,2) A hit(3)] by simp
  let ?st2 = "st\<lparr> a_tested := a_tested st + 1, a_exact := a_exact st + 1 \<rparr>"
  have i2: "hits_ok ?st2" using inv by simp
  from hits_ok_add_local [OF i2 g] hit(5) show ?thesis by simp
next
  case (hit_flush d C g results)
  have g: "hit_gcd (make_hit params A B C g) = 1"
    using search_hit_primitive [OF hit_flush(1,2) A hit_flush(3)] by simp
  let ?st2 = "st\<lparr> a_tested := a_tested st + 1, a_exact := a_exact st + 1 \<rparr>"
  have i2: "hits_ok ?st2" using inv by simp
  have f2: "flush_local_hits ?st2 = Some results"
    using hit_flush(5) by (simp add: flush_local_hits_def)
  from hits_ok_flush [OF i2 g f2] hit_flush(6) show ?thesis by simp
qed

lemma search_lanes_hits:
  "search_lanes lanes params A B survivors st = Some st' \<Longrightarrow> hits_ok st \<Longrightarrow> 1 \<le> unat A
     \<Longrightarrow> hits_ok st'"
proof (induction lanes arbitrary: st)
  case Nil
  then show ?case by simp
next
  case (Cons lane lanes)
  show ?case
  proof (cases "B + word_of_nat lane \<le> sp_B_max params")
    case True
    with Cons.prems(1) obtain st1 where
      s1: "search_pair_avx2 params A (B + word_of_nat lane) survivors lane st = Some st1"
      and rest: "search_lanes lanes params A B survivors st1 = Some st'"
      by (auto simp: bind_eq_Some_conv)
    from search_pair_avx2_hits [OF s1 Cons.prems(2,3)] Cons.IH [OF rest _ Cons.prems(3)]
    show ?thesis by simp
  next
    case False
    with Cons.prems show ?thesis by simp
  qed
qed

lemma search_A_hits:
  assumes run: "search_A have_avx2 params data A st = Some st'" and inv: "hits_ok st"
    and A: "1 \<le> unat A"
  shows "hits_ok st'"
  using run
proof (cases rule: search_A_split)
  case (1 st1)
  let ?st0 = "st\<lparr> a_tested := 0, a_gcd := 0, a_mod := 0, a_exact := 0 \<rparr>"
  have st0: "hits_ok ?st0" using inv by simp
  have "hits_ok st1"
  proof (cases have_avx2)
    case True
    with 1(1) have l: "for_le 8 (sp_B_start params) (sp_B_max params)
             (\<lambda>B st. sieve_survives_avx2_8 A B data \<bind>
                (\<lambda>survivors. search_lanes [0..<8] params A B survivors st)) ?st0 = Some st1"
      by simp
    show ?thesis
    proof (rule for_le_inv [where P = hits_ok, OF l st0])
      fix v s s'
      assume p: "hits_ok s"
        and b: "sieve_survives_avx2_8 A v data \<bind>
                (\<lambda>survivors. search_lanes [0..<8] params A v survivors s) = Some s'"
      from b obtain sv where "search_lanes [0..<8] params A v sv s = Some s'"
        by (auto simp: bind_eq_Some_conv)
      then show "hits_ok s'" using p A by (rule search_lanes_hits)
    qed
  next
    case False
    with 1(1) have l: "for_le 1 (sp_B_start params) (sp_B_max params)
                   (search_pair_scalar params data A) ?st0 = Some st1" by simp
    show ?thesis
    proof (rule for_le_inv [where P = hits_ok, OF l st0])
      fix v s s'
      assume p: "hits_ok s" and r: "search_pair_scalar params data A v s = Some s'"
      show "hits_ok s'" by (rule search_pair_scalar_hits [OF r p A])
    qed
  qed
  then show ?thesis by (simp add: 1(2))
qed

lemma foldl_count:
  "foldl (\<lambda>n h. if P h then n + 1 else n) (a::u64) hs = a + word_of_nat (length (filter P hs))"
  by (induction hs arbitrary: a) (simp_all add: ac_simps)

lemma count_primitive_all:
  assumes "list_all (\<lambda>h. hit_gcd h = 1) hs" and "length hs < 2 ^ 64"
  shows "(count_primitive hs > 0) = (hs \<noteq> [])"
    and "count_primitive hs = word_of_nat (length hs)"
proof -
  have "filter (\<lambda>h. hit_gcd h = 1) hs = hs"
    using assms(1) by (simp add: list_all_iff)
  then show c: "count_primitive hs = word_of_nat (length hs)"
    by (simp add: count_primitive_def foldl_count)
  have "unat (word_of_nat (length hs) :: u64) = length hs"
    using assms(2) by (simp add: unat_of_nat)
  then show "(count_primitive hs > 0) = (hs \<noteq> [])"
    by (simp add: c word_less_nat_alt)
qed

lemma capacity_ok_length:
  assumes "capacity_ok r"
  shows "length (hits r) < 2 ^ 64"
proof -
  have "length (hits r) \<le> unat (hits_capacity r)" using assms by (simp add: capacity_ok_def)
  also have "unat (hits_capacity r) < 2 ^ 64"
    using unsigned_less [of "hits_capacity r", where ?'a = nat] by simp
  finally show ?thesis .
qed

lemma hits_ok_init: "hits_ok (search_init results_init)"
  by (simp add: hits_ok_def stored_hits_def search_init_def results_init_def capacity_ok_def
      sizeof_BealHit_def)

lemma search_loop_hits:
  assumes loop: "for_le 1 A_start A_max (search_A have_avx2 params data) st = Some st'"
    and inv: "hits_ok st" and A: "1 \<le> unat A_start"
  shows "hits_ok st'"
proof -
  have ne: "A_max \<noteq> - 1" using loop by (rule for_le_Some_not_max)
  from loop have f: "fold_opt (search_A have_avx2 params data) (word_range A_start A_max) st = Some st'"
    by (simp add: for_le_unroll [OF ne])
  show ?thesis
  proof (rule fold_opt_inv [where P = hits_ok, OF f inv])
    fix x s s'
    assume x: "x \<in> set (word_range A_start A_max)" and p: "hits_ok s"
      and r: "search_A have_avx2 params data x s = Some s'"
    from x have "A_start \<le> x" by (simp add: set_word_range [OF ne])
    then have "1 \<le> unat x" using A by (simp add: word_le_nat_alt)
    with r p show "hits_ok s'" by (rule search_A_hits)
  qed
qed

lemma search_parallel_hits:
  assumes run: "search_parallel have_avx2 alloc_ok params = Some (results, notices)"
    and A: "1 \<le> unat (sp_A_start params)"
  shows "(primitive_hits results > 0) = (notices \<noteq> [])"
    and "(primitive_hits results > 0) = (\<exists>h\<in>set (hits results). hit_gcd h = 1)"
    and "primitive_hits results = power_hits results"
proof -
  have "(primitive_hits results > 0) = (notices \<noteq> [])
      \<and> (primitive_hits results > 0) = (\<exists>h\<in>set (hits results). hit_gcd h = 1)
      \<and> primitive_hits results = power_hits results"
  proof (cases alloc_ok)
    case False
    with run show ?thesis by (auto simp: search_parallel_def results_init_def)
  next
    case True
    with run have "search_parallel have_avx2 True params = Some (results, notices)" by simp
    then show ?thesis
    proof (cases rule: search_parallel_split)
      case (1 data st res)
      have ok: "hits_ok st" by (rule search_loop_hits [OF 1(2) hits_ok_init A])
      then have cap: "capacity_ok (the_results st)" by (simp add: hits_ok_def)
      have res: "hits res = stored_hits st \<and> capacity_ok res"
      proof (cases "local_hits st = []")
        case True
        with 1(3) cap show ?thesis by (auto simp: stored_hits_def)
      next
        case False
        with 1(3) have "flush_local_hits st = Some res" by simp
        from flush_local_hits_Some [OF this cap] show ?thesis by simp
      qed
      then have all: "list_all (\<lambda>h. hit_gcd h = 1) (hits res)"
        and emp: "(announced st = []) = (hits res = [])"
        using ok by (simp_all add: hits_ok_def)
      from res have "capacity_ok res" by simp
      then have len: "length (hits res) < 2 ^ 64" by (rule capacity_ok_length)
      note cp = count_primitive_all [OF all len]
      have h: "hits results = hits res" and p: "primitive_hits results = count_primitive (hits res)"
        and pw: "power_hits results = word_of_nat (length (hits res))"
        by (simp_all add: 1(4))
      have ex: "(\<exists>h\<in>set (hits res). hit_gcd h = 1) = (hits res \<noteq> [])"
        using all by (cases "hits res") (auto simp: list_all_iff)
      show ?thesis
        using cp emp ex by (simp add: h p pw 1(5))
    qed
  qed
  then show "(primitive_hits results > 0) = (notices \<noteq> [])"
    and "(primitive_hits results > 0) = (\<exists>h\<in>set (hits results). hit_gcd h = 1)"
    and "primitive_hits results = power_hits results"
    by blast+
qed

lemma fold_opt_total_inv:
  assumes "\<And>a s. a \<in> set as \<Longrightarrow> P s \<Longrightarrow> \<exists>s'. f a s = Some s' \<and> P s'" and "P s"
  shows "\<exists>s'. fold_opt f as s = Some s' \<and> P s'"
  using assms
proof (induction as arbitrary: s)
  case Nil
  then show ?case by simp
next
  case (Cons a as)
  from Cons.prems(1) [of a s] Cons.prems(2) obtain s1 where s1: "f a s = Some s1" "P s1" by auto
  have "\<exists>s'. fold_opt f as s1 = Some s' \<and> P s'"
  proof (rule Cons.IH)
    fix b t assume "b \<in> set as" "P t"
    then show "\<exists>s'. f b t = Some s' \<and> P s'" using Cons.prems(1) [of b t] by simp
  qed (rule s1(2))
  then show ?case using s1(1) by simp
qed

lemma check_beal_hit_gmp_total:
  assumes "1 \<le> unat z"
  shows "\<exists>found C g. check_beal_hit_gmp A B x y z C_max out = Some (found, C, g)"
proof (cases "\<exists>r. 1 \<le> r \<and> r \<le> unat C_max \<and> unat A ^ unat x + unat B ^ unat y = r ^ unat z")
  case True
  then obtain r where "1 \<le> r" "r \<le> unat C_max" "unat A ^ unat x + unat B ^ unat y = r ^ unat z"
    by blast
  from check_beal_hit_gmp_hit [OF assms this] show ?thesis by blast
next
  case False
  from check_beal_hit_gmp_miss [OF assms False, of out] show ?thesis
    by (cases out) auto
qed

lemma search_pair_scalar_total:
  assumes pc: "precompute_create (sp_x params) (sp_y params) (sp_z params) A_max B_max = Some data"
    and A: "A \<le> A_max" and B: "B \<le> B_max" and z: "1 \<le> unat (sp_z params)"
    and ok: "scalar_buffer_ok st"
  shows "\<exists>st'. search_pair_scalar params data A B st = Some st' \<and> scalar_buffer_ok st'"
proof -
  obtain found C g where c: "check_beal_hit_gmp A B (sp_x params) (sp_y params) (sp_z params)
      (sp_C_max params) (0, 0) = Some (found, C, g)"
    using check_beal_hit_gmp_total [OF z] by blast
  note s = sieve_survives_scalar_spec [OF pc A B]
  show ?thesis
    using ok
    by (auto simp: search_pair_scalar_def Let_def gcd64_correct s c scalar_buffer_ok_def
        announce_def)
qed

lemma flush_total:
  "hits_capacity r = 64 \<Longrightarrow> length (hits r) + length hs \<le> 64 \<Longrightarrow>
     \<exists>r'. fold_opt (\<lambda>hit results. results_add_hit results hit) hs r = Some r'"
proof (induction hs arbitrary: r)
  case Nil
  then show ?case by simp
next
  case (Cons h hs)
  let ?r1 = "r\<lparr> hits := hits r @ [h] \<rparr>"
  have "results_add_hit r h = Some ?r1"
    using Cons.prems by (simp add: results_add_hit_def Let_def sizeof_BealHit_def)
  moreover have "\<exists>r'. fold_opt (\<lambda>hit results. results_add_hit results hit) hs ?r1 = Some r'"
    by (rule Cons.IH) (use Cons.prems in simp_all)
  ultimately show ?case by simp
qed

lemma search_parallel_scalar_total:
  assumes A: "sp_A_max params \<noteq> - 1" and B: "sp_B_max params \<noteq> - 1"
    and z: "1 \<le> unat (sp_z params)"
  shows "\<exists>results notices. search_parallel False True params = Some (results, notices)"
proof -
  obtain data where pc: "precompute_create (sp_x params) (sp_y params) (sp_z params)
      (sp_A_max params) (sp_B_max params) = Some data"
    using precompute_create_total [OF A B] by blast
  have pair: "\<exists>s'. search_pair_scalar params data a b s = Some s' \<and> scalar_buffer_ok s'"
    if "a \<in> set (word_range (sp_A_start params) (sp_A_max params))"
      and "b \<in> set (word_range (sp_B_start params) (sp_B_max params))"
      and "scalar_buffer_ok s" for a b s
  proof -
    from that(1,2) have "a \<le> sp_A_max params" "b \<le> sp_B_max params"
      by (simp_all add: set_word_range [OF A] set_word_range [OF B])
    from search_pair_scalar_total [OF pc this z that(3)] show ?thesis .
  qed
  have row: "\<exists>s'. search_A False params data a s = Some s' \<and> scalar_buffer_ok s'"
    if a: "a \<in> set (word_range (sp_A_start params) (sp_A_max params))"
      and s: "scalar_buffer_ok s" for a s
  proof -
    let ?s0 = "s\<lparr> a_tested := 0, a_gcd := 0, a_mod := 0, a_exact := 0 \<rparr>"
    have "scalar_buffer_ok ?s0" using s by (simp add: scalar_buffer_ok_def)
    with pair [OF a] have "\<exists>s'. fold_opt (search_pair_scalar params data a)
        (word_range (sp_B_start params) (sp_B_max params)) ?s0 = Some s' \<and> scalar_buffer_ok s'"
      by (intro fold_opt_total_inv [where P = scalar_buffer_ok]) auto
    then obtain s1 where "for_le 1 (sp_B_start params) (sp_B_max params)
        (search_pair_scalar params data a) ?s0 = Some s1" and "scalar_buffer_ok s1"
      by (auto simp: for_le_unroll [OF B])
    then show ?thesis
      by (simp add: search_A_def Let_def scalar_buffer_ok_def)
  qed
  have "scalar_buffer_ok (search_init results_init)"
    by (simp add: scalar_buffer_ok_def search_init_def)
  with row have "\<exists>st. fold_opt (search_A False params data)
      (word_range (sp_A_start params) (sp_A_max params)) (search_init results_init) = Some st
      \<and> scalar_buffer_ok st"
    by (intro fold_opt_total_inv [where P = scalar_buffer_ok]) auto
  then obtain st where loop: "for_le 1 (sp_A_start params) (sp_A_max params)
      (search_A False params data) (search_init results_init) = Some st"
    and ok: "scalar_buffer_ok st"
    by (auto simp: for_le_unroll [OF A])
  have "\<exists>res. flush_local_hits st = Some res"
    unfolding flush_local_hits_def
    by (rule flush_total) (use ok in \<open>simp_all add: scalar_buffer_ok_def results_init_def\<close>)
  then obtain res where "flush_local_hits st = Some res" by blast
  then show ?thesis
    using pc loop by (simp add: search_parallel_def Let_def)
qed

lemma example_digest:
  "integrity_hash (example_params\<lparr> log_path := Some ''run.jsonl'' \<rparr>)
     (results_init\<lparr> total_pairs := 4, gcd_filtered := 1, mod_filtered := 2,
        exact_checks := 1 \<rparr>)
     = 1783485138568397182"
  by (simp add: integrity_hash_def example_params_def results_init_def)

lemma example_digest_hex:
  "printf_016x64 (1783485138568397182 :: u64) = ''18c03648c28ec17e''"
  by (simp add: printf_016x64_def hex_digit_def upt_rec drop_bit_eq_div)

lemma announce_a_counters:
  "a_tested (announce hit st) = a_tested st" "a_gcd (announce hit st) = a_gcd st"
  "a_mod (announce hit st) = a_mod st" "a_exact (announce hit st) = a_exact st"
  by (simp_all add: announce_def)

lemma search_pair_scalar_counted_once:
  assumes "search_pair_scalar params data A B st = Some st'"
  shows "counted_once st st'"
  using assms
  by (cases rule: search_pair_scalar_cases)
     (simp_all add: counted_once_def announce_a_counters)

lemma search_pair_avx2_counted_once:
  assumes "search_pair_avx2 params A B survivors lane st = Some st'"
  shows "counted_once st st'"
  using assms
  by (cases rule: search_pair_avx2_cases)
     (simp_all add: counted_once_def announce_a_counters)

lemma gcd64_2_2: "gcd64 2 2 = Some 2"
  by (simp add: gcd64_correct)

lemma example_gcd_skip_scalar:
  "search_pair_scalar params data 2 2 st
     = Some (st\<lparr> a_tested := a_tested st + 1, a_gcd := a_gcd st + 1 \<rparr>)"
  by (simp add: search_pair_scalar_def gcd64_2_2)

lemma example_gcd_skip_avx2:
  "search_pair_avx2 params 2 2 survivors lane st
     = Some (st\<lparr> a_tested := a_tested st + 1, a_gcd := a_gcd st + 1 \<rparr>)"
  by (simp add: search_pair_avx2_def gcd64_2_2)

section \<open>The claims\<close>

text \<open>
  Claim C8 (modular exponentiation). For every \<open>base\<close>, every exponent \<open>exp\<close> and every
  modulus \<open>m\<close> with \<open>1 \<le> m \<le> 2^32\<close>, excluding only the pair \<open>m = 1\<close>, \<open>exp = 0\<close>,
  \<open>powmod base exp m\<close> returns \<open>base ^ exp mod m\<close>, whatever the size of \<open>base\<close> (it is
  reduced modulo \<open>m\<close> first), and no product of the loop exceeds 64 bits (the ghost flag
  stays \<open>False\<close>); this covers every modulus \<open>m \<le> 71\<close> of the sieve.
\<close>

theorem powmod_correct:
  assumes "1 \<le> unat m" and "unat m \<le> 2 ^ 32" and "2 \<le> unat m \<or> 1 \<le> unat exp"
  shows "powmod_run base exp m = Some (word_of_nat (unat base ^ unat exp mod unat m), False)
       \<and> powmod base exp m = Some (word_of_nat (unat base ^ unat exp mod unat m))"
  using powmod_small [OF assms] by simp

theorem powmod_correct_witness:
  "powmod_run 18446744073709551615 3 71 = Some (word_of_nat (18446744073709551615 ^ 3 mod 71), False)
       \<and> powmod 18446744073709551615 3 71 = Some (word_of_nat (18446744073709551615 ^ 3 mod 71))"
  using powmod_correct [of 71 3 18446744073709551615] by simp

text \<open>
  The claim as the specification states it, for every modulus \<open>m \<ge> 1\<close>, fails in two
  places: \<open>powmod 5 0 1\<close> is \<open>1\<close> although \<open>5 ^ 0 mod 1 = 0\<close> (\<open>result\<close> starts at 1 and
  is never reduced), and with the modulus \<open>2^32 + 1\<close> the square of \<open>2^32\<close> wraps to 0,
  so that \<open>powmod (2^32) 2 (2^32 + 1)\<close> is \<open>0\<close> although \<open>(2^32)^2 mod (2^32 + 1) = 1\<close>.
\<close>

theorem powmod_claim_counterexample:
  "powmod 5 0 1 = Some 1 \<and> (5::nat) ^ 0 mod 1 = 0
   \<and> powmod 4294967296 2 4294967297 = Some 0
   \<and> (4294967296::nat) ^ 2 mod 4294967297 = 1
   \<and> powmod_run 4294967296 2 4294967297 = Some (0, True)"
  by (simp add: powmod_def powmod_run_def powmod_loop.simps [of _ _ 2]
      powmod_loop.simps [of _ _ 1])

text \<open>
  Claim C2 (residue mask exactness). For every sieve prime \<open>p\<close> and every exponent \<open>z\<close>
  (in particular every \<open>z \<ge> 3\<close>), \<open>compute_residue_mask128 p z\<close> returns a mask in which,
  for every bit position \<open>r\<close> below 128, bit \<open>r\<close> is set if and only if \<open>r\<close> is the residue
  \<open>s ^ z mod p\<close> of some \<open>s\<close> in \<open>[0, p)\<close>. For \<open>p = 71\<close> and \<open>z = 3\<close> bit 70 is set, and
  it is bit 6 of the upper word.
\<close>

theorem residue_mask_exact:
  "(p \<in> set SIEVE_PRIMES \<longrightarrow>
      (\<exists>msk. compute_residue_mask128 (ucast p) z = Some msk \<and>
         (\<forall>r<128. get_bit128 msk r = (\<exists>s<unat p. s ^ unat z mod unat p = unat r))))
   \<and> (\<exists>msk. compute_residue_mask128 71 3 = Some msk \<and> get_bit128 msk 70 \<and> bit (snd msk) 6)"
proof (intro conjI impI)
  assume "p \<in> set SIEVE_PRIMES"
  then have "2 \<le> unat p" "unat p \<le> 128"
    by (auto simp: SIEVE_PRIMES_def)
  then have "2 \<le> unat (ucast p :: u32) \<or> 1 \<le> unat z" "unat (ucast p :: u32) \<le> 128"
    by simp_all
  from residue_loop_bits [OF this, of 0 "(0, 0)"]
  show "\<exists>msk. compute_residue_mask128 (ucast p) z = Some msk \<and>
         (\<forall>r<128. get_bit128 msk r = (\<exists>s<unat p. s ^ unat z mod unat p = unat r))"
    by (simp add: compute_residue_mask128_def)
next
  have "2 \<le> unat (71 :: u32) \<or> 1 \<le> unat (3 :: u32)" "unat (71 :: u32) \<le> 128"
    by simp_all
  from residue_loop_bits [OF this, of 0 "(0, 0)"]
  obtain msk where m: "compute_residue_mask128 71 3 = Some msk"
    and bits: "\<forall>b<128. get_bit128 msk b = (\<exists>s<71. s ^ 3 mod 71 = unat b)"
    by (auto simp: compute_residue_mask128_def)
  have "(70::nat) < 71 \<and> (70::nat) ^ 3 mod 71 = unat (70 :: u32)"
    by simp
  then have "\<exists>s<71. (s::nat) ^ 3 mod 71 = unat (70 :: u32)"
    by blast
  then have g: "get_bit128 msk 70"
    using bits by simp
  then have "bit (snd msk) 6"
    by (simp add: get_bit128_iff)
  with m g show "\<exists>msk. compute_residue_mask128 71 3 = Some msk \<and> get_bit128 msk 70 \<and> bit (snd msk) 6"
    by blast
qed

theorem residue_mask_exact_witness:
  "(7::u8) \<in> set SIEVE_PRIMES \<and>
      (\<exists>msk. compute_residue_mask128 7 3 = Some msk \<and>
         (\<forall>r<128. get_bit128 msk r = (\<exists>s<7. s ^ 3 mod 7 = unat r)))"
  using residue_mask_exact [of 7 3] by (simp add: SIEVE_PRIMES_def)

text \<open>
  Claim C4 (verifier contract). For every \<open>A\<close>, \<open>B\<close>, \<open>x\<close>, \<open>y\<close> and every \<open>z \<ge> 1\<close> (so
  for all \<open>A, B \<ge> 1\<close> and \<open>x, y, z \<ge> 3\<close>), \<open>check_beal_hit_gmp\<close> returns, and it returns
  true if and only if \<open>A^x + B^y = r^z\<close> for some integer \<open>r\<close> with \<open>1 \<le> r \<le> C_max\<close>; when
  it returns true, the value \<open>C\<close> it stores is that root and the value \<open>g\<close> it stores is
  \<open>gcd (A, gcd (B, C))\<close>. On \<open>(2, 2, 6, 6, 7, 1000)\<close> it returns true with \<open>C = 2\<close> and
  \<open>g = 2\<close>; on \<open>(2, 3, 3, 3, 3, 1000)\<close> it returns false.
\<close>

theorem check_beal_hit_gmp_contract:
  assumes z: "1 \<le> unat z"
  shows "(\<exists>hit C g. check_beal_hit_gmp A B x y z C_max out = Some (hit, C, g) \<and>
            (hit \<longleftrightarrow> (\<exists>r. 1 \<le> r \<and> r \<le> unat C_max \<and>
                     unat A ^ unat x + unat B ^ unat y = r ^ unat z)) \<and>
            (hit \<longrightarrow> 1 \<le> unat C \<and> unat C \<le> unat C_max \<and>
                     unat A ^ unat x + unat B ^ unat y = unat C ^ unat z \<and>
                     unat g = gcd (unat A) (gcd (unat B) (unat C))))
       \<and> check_beal_hit_gmp 2 2 6 6 7 1000 out = Some (True, 2, 2)
       \<and> check_beal_hit_gmp 2 3 3 3 3 1000 out = Some (False, out)"
proof (intro conjI)
  let ?E = "\<exists>r. 1 \<le> r \<and> r \<le> unat C_max \<and> unat A ^ unat x + unat B ^ unat y = r ^ unat z"
  show "\<exists>hit C g. check_beal_hit_gmp A B x y z C_max out = Some (hit, C, g) \<and>
            (hit \<longleftrightarrow> ?E) \<and>
            (hit \<longrightarrow> 1 \<le> unat C \<and> unat C \<le> unat C_max \<and>
                     unat A ^ unat x + unat B ^ unat y = unat C ^ unat z \<and>
                     unat g = gcd (unat A) (gcd (unat B) (unat C)))"
  proof (cases ?E)
    case True
    then obtain r where r: "1 \<le> r" "r \<le> unat C_max"
      "unat A ^ unat x + unat B ^ unat y = r ^ unat z" by blast
    have r64: "r < 2 ^ 64" using r(2) unsigned_less [of C_max, where ?'a = nat] by simp
    then have ur: "unat (word_of_nat r :: u64) = r" by (simp add: unat_of_nat)
    have "gcd (unat A) (gcd (unat B) r) \<le> gcd (unat B) r"
      using r(1) by (intro gcd_le2_nat) simp
    also have "\<dots> \<le> r" using r(1) by (intro gcd_le2_nat) simp
    finally have "gcd (unat A) (gcd (unat B) r) < 2 ^ 64" using r64 by simp
    then have ug: "unat (word_of_nat (gcd (unat A) (gcd (unat B) r)) :: u64)
        = gcd (unat A) (gcd (unat B) r)" by (simp add: unat_of_nat)
    have "check_beal_hit_gmp A B x y z C_max out =
        Some (True, word_of_nat r, word_of_nat (gcd (unat A) (gcd (unat B) r)))"
      by (rule check_beal_hit_gmp_hit [OF z r])
    moreover have "True \<longleftrightarrow> ?E" using True by simp
    moreover have "1 \<le> unat (word_of_nat r :: u64) \<and> unat (word_of_nat r :: u64) \<le> unat C_max \<and>
        unat A ^ unat x + unat B ^ unat y = unat (word_of_nat r :: u64) ^ unat z \<and>
        unat (word_of_nat (gcd (unat A) (gcd (unat B) r)) :: u64)
          = gcd (unat A) (gcd (unat B) (unat (word_of_nat r :: u64)))"
      using r by (simp add: ur ug)
    ultimately show ?thesis by blast
  next
    case False
    obtain c g where out: "out = (c, g)" by (cases out)
    have "check_beal_hit_gmp A B x y z C_max out = Some (False, c, g)"
      using check_beal_hit_gmp_miss [OF z False, of out] by (simp add: out)
    moreover have "False \<longleftrightarrow> ?E" using False by simp
    ultimately show ?thesis by blast
  qed
next
  have "1 \<le> unat (7 :: u32)" "(1::nat) \<le> 2" "2 \<le> unat (1000 :: u64)"
    "unat (2 :: u64) ^ unat (6 :: u32) + unat (2 :: u64) ^ unat (6 :: u32) = 2 ^ unat (7 :: u32)"
    by simp_all
  from check_beal_hit_gmp_hit [OF this, of out]
  show "check_beal_hit_gmp 2 2 6 6 7 1000 out = Some (True, 2, 2)" by simp
next
  have "1 \<le> unat (3 :: u32)" by simp
  moreover have "\<not> (\<exists>r. 1 \<le> r \<and> r \<le> unat (1000 :: u64) \<and>
      unat (2 :: u64) ^ unat (3 :: u32) + unat (3 :: u64) ^ unat (3 :: u32) = r ^ unat (3 :: u32))"
    using no_cube_35 by simp
  ultimately show "check_beal_hit_gmp 2 3 3 3 3 1000 out = Some (False, out)"
    by (rule check_beal_hit_gmp_miss)
qed

theorem check_beal_hit_gmp_contract_witness:
  "\<exists>hit C g. check_beal_hit_gmp 3 6 3 3 5 1000 (0, 0) = Some (hit, C, g) \<and>
            (hit \<longleftrightarrow> (\<exists>r. 1 \<le> r \<and> r \<le> unat (1000 :: u64) \<and>
                     unat (3 :: u64) ^ unat (3 :: u32) + unat (6 :: u64) ^ unat (3 :: u32)
                       = r ^ unat (5 :: u32))) \<and>
            (hit \<longrightarrow> 1 \<le> unat C \<and> unat C \<le> unat (1000 :: u64) \<and>
                     unat (3 :: u64) ^ unat (3 :: u32) + unat (6 :: u64) ^ unat (3 :: u32)
                       = unat C ^ unat (5 :: u32) \<and>
                     unat g = gcd (unat (3 :: u64)) (gcd (unat (6 :: u64)) (unat C)))"
proof -
  have "1 \<le> unat (5 :: u32)" by simp
  from check_beal_hit_gmp_contract [OF this, where A = 3 and B = 6 and x = 3 and y = 3
      and C_max = 1000 and out = "(0, 0)"]
  show ?thesis by blast
qed


text \<open>
  Claim C9 (verifier frame property). When \<open>check_beal_hit_gmp\<close> returns false, the
  cells behind \<open>out_C\<close> and \<open>out_gcd\<close> hold after the call what they held before it:
  they are written on the true branch only.
\<close>

theorem check_beal_hit_gmp_frame:
  "check_beal_hit_gmp A B x y z C_max out = Some (False, out') \<Longrightarrow> out' = out"
  by (auto simp: check_beal_hit_gmp_def Let_def split: option.splits if_splits prod.splits)

theorem check_beal_hit_gmp_frame_witness:
  "check_beal_hit_gmp 2 3 3 3 3 1000 (5, 7) = Some (False, (5, 7))"
proof -
  have "1 \<le> unat (3 :: u32)" by simp
  moreover have "\<not> (\<exists>r. 1 \<le> r \<and> r \<le> unat (1000 :: u64) \<and>
      unat (2 :: u64) ^ unat (3 :: u32) + unat (3 :: u64) ^ unat (3 :: u32) = r ^ unat (3 :: u32))"
    using no_cube_35 by simp
  ultimately obtain out' where h: "check_beal_hit_gmp 2 3 3 3 3 1000 (5, 7) = Some (False, out')"
    using check_beal_hit_gmp_miss by blast
  from check_beal_hit_gmp_frame [OF h] h show ?thesis by simp
qed


text \<open>
  Claim C1 (sieve soundness). For every signature \<open>(x, y, z)\<close> (in particular
  \<open>x, y, z \<ge> 3\<close>), tables \<open>data\<close> returned by \<open>precompute_create x y z A_max B_max\<close>, and
  every pair with \<open>A \<le> A_max\<close> and \<open>B \<le> B_max\<close> (in particular \<open>1 \<le> A\<close>, \<open>1 \<le> B\<close>): if
  \<open>A^x + B^y = C^z\<close> for an integer \<open>C\<close>, then \<open>sieve_survives_scalar A B data\<close> reads
  inside the tables and returns true.
\<close>

theorem sieve_sound:
  assumes "precompute_create x y z A_max B_max = Some data"
    and "A \<le> A_max" and "B \<le> B_max"
    and "unat A ^ unat x + unat B ^ unat y = C ^ unat z"
  shows "sieve_survives_scalar A B data = Some True"
  using sieve_survives_scalar_spec [OF assms(1-3)] solution_admitted [OF assms(4)]
  by simp

theorem sieve_sound_witness:
  "\<exists>data. precompute_create 3 3 4 2 2 = Some data \<and> sieve_survives_scalar 2 2 data = Some True"
proof -
  obtain data where d: "precompute_create 3 3 4 2 2 = Some data"
    using precompute_create_total [of 2 2 3 3 4] by auto
  have "unat (2 :: u64) ^ unat (3 :: u32) + unat (2 :: u64) ^ unat (3 :: u32) = 2 ^ unat (4 :: u32)"
    by simp
  from sieve_sound [OF d _ _ this] d show ?thesis
    by simp
qed

text \<open>
  Claim C3 (scalar / 8-lane equivalence). On tables returned by \<open>precompute_create\<close>, for
  every \<open>A \<le> A_max\<close>, every \<open>B_start\<close> and every lane \<open>l < 8\<close>, \<open>sieve_survives_avx2_8\<close>
  returns a mask whose bit \<open>l\<close> is the answer of \<open>sieve_survives_scalar\<close> on
  \<open>(A, B_start + l)\<close> when \<open>B_start + l \<le> B_max\<close> and is 0 when \<open>B_start + l > B_max\<close>. Here
  \<open>B_start + l\<close> is the value \<open>B\<close> both functions work with, the 64-bit sum
  \<^verbatim>\<open>uint64_t B = B_start + l\<close> of the source.
\<close>

theorem sieve_lane_equivalence:
  assumes "precompute_create x y z A_max B_max = Some data" and "A \<le> A_max"
  shows "\<exists>s. sieve_survives_avx2_8 A B_start data = Some s \<and>
       (\<forall>l<8. (B_start + word_of_nat l \<le> B_max \<longrightarrow>
                  sieve_survives_scalar A (B_start + word_of_nat l) data = Some (bit s l))
             \<and> (B_start + word_of_nat l > B_max \<longrightarrow> \<not> bit s l))"
proof -
  from sieve_survives_avx2_8_spec [OF assms, of B_start]
  obtain s where s: "sieve_survives_avx2_8 A B_start data = Some s"
    and b: "\<forall>l<8. bit s l = (B_start + word_of_nat l \<le> B_max \<and>
                          (\<forall>i<20. sieve_admits x y z A (B_start + word_of_nat l) i))"
    by blast
  have "(B_start + word_of_nat l \<le> B_max \<longrightarrow>
                  sieve_survives_scalar A (B_start + word_of_nat l) data = Some (bit s l))
             \<and> (B_start + word_of_nat l > B_max \<longrightarrow> \<not> bit s l)" if l: "l < 8" for l
  proof (cases "B_start + word_of_nat l \<le> B_max")
    case True
    then have "\<not> B_start + word_of_nat l > B_max" by (simp add: not_less)
    with sieve_survives_scalar_spec [OF assms True] b l True
    show ?thesis by simp
  next
    case False
    with b l show ?thesis by simp
  qed
  with s show ?thesis by blast
qed

theorem sieve_lane_equivalence_witness:
  "\<exists>data s. precompute_create 3 3 4 2 2 = Some data \<and>
       sieve_survives_avx2_8 2 2 data = Some s \<and>
       sieve_survives_scalar 2 2 data = Some (bit s 0) \<and> \<not> bit s 1"
proof -
  obtain data where d: "precompute_create 3 3 4 2 2 = Some data"
    using precompute_create_total [of 2 2 3 3 4] by auto
  have le: "(2 :: u64) \<le> 2" by simp
  from sieve_lane_equivalence [OF d le, of 2]
  obtain s where s: "sieve_survives_avx2_8 2 2 data = Some s"
    and b: "\<forall>l<8. ((2 :: u64) + word_of_nat l \<le> 2 \<longrightarrow>
                  sieve_survives_scalar 2 (2 + word_of_nat l) data = Some (bit s l))
             \<and> ((2 :: u64) + word_of_nat l > 2 \<longrightarrow> \<not> bit s l)"
    by blast
  have l0: "sieve_survives_scalar 2 2 data = Some (bit s 0)"
    using b [rule_format, of 0] by simp
  have l1: "\<not> bit s 1"
    using b [rule_format, of 1] by simp
  from d s l0 l1 show ?thesis by blast
qed


text \<open>
  Claim C10 (what \<open>count_sieve_survivors\<close> counts). On tables returned by
  \<open>precompute_create\<close> and for \<open>A_end \<le> A_max\<close>, \<open>B_end \<le> B_max\<close>, the function returns the
  number of pairs \<open>(A, B)\<close> of the rectangle \<open>[A_start, A_end] \<times> [B_start, B_end]\<close> for which
  \<open>gcd64 A B\<close> is 1 and the scalar sieve answers true (held in a 64-bit counter: the
  number itself whenever it is below \<open>2^64\<close>). A pair with \<open>gcd (A, B) > 1\<close> is not counted
  even when the sieve lets it through, as the pair \<open>(2, 2)\<close> for the signature
  \<open>(3, 3, 4)\<close> shows.
\<close>

theorem count_sieve_survivors_exact:
  assumes "precompute_create x y z A_max B_max = Some data"
    and "A_end \<le> A_max" and "B_end \<le> B_max"
  shows "\<exists>count. count_sieve_survivors A_start A_end B_start B_end data = Some count \<and>
     count = word_of_nat (card {(A, B). A_start \<le> A \<and> A \<le> A_end \<and> B_start \<le> B \<and> B \<le> B_end \<and>
                 gcd64 A B = Some 1 \<and> sieve_survives_scalar A B data = Some True}) \<and>
     (card {(A, B). A_start \<le> A \<and> A \<le> A_end \<and> B_start \<le> B \<and> B \<le> B_end \<and>
                 gcd64 A B = Some 1 \<and> sieve_survives_scalar A B data = Some True} < 2 ^ 64 \<longrightarrow>
      unat count = card {(A, B). A_start \<le> A \<and> A \<le> A_end \<and> B_start \<le> B \<and> B \<le> B_end \<and>
                 gcd64 A B = Some 1 \<and> sieve_survives_scalar A B data = Some True})"
proof -
  note f = precompute_create_Some [OF assms(1)]
  have ae: "A_end \<noteq> - 1" using assms(2) f(3) by (metis word_order.extremum_unique)
  have be: "B_end \<noteq> - 1" using assms(3) f(4) by (metis word_order.extremum_unique)
  let ?P = "\<lambda>(A, B). gcd64 A B = Some 1 \<and> sieve_survives_scalar A B data = Some True"
  let ?xs = "filter ?P (List.product (word_range A_start A_end) (word_range B_start B_end))"
  let ?S = "{(A, B). A_start \<le> A \<and> A \<le> A_end \<and> B_start \<le> B \<and> B \<le> B_end \<and>
                 gcd64 A B = Some 1 \<and> sieve_survives_scalar A B data = Some True}"
  have "distinct ?xs"
    by (intro distinct_filter distinct_product distinct_word_range ae be)
  then have "length ?xs = card (set ?xs)" by (simp only: distinct_card)
  moreover have "set ?xs = ?S"
    by (auto simp: set_word_range [OF ae] set_word_range [OF be])
  ultimately have len: "length ?xs = card ?S" by simp
  have c: "count_sieve_survivors A_start A_end B_start B_end data = Some (word_of_nat (card ?S))"
    using count_sieve_survivors_list [OF assms, of A_start B_start] by (simp only: len)
  have "card ?S < 2 ^ 64 \<longrightarrow> unat (word_of_nat (card ?S) :: u64) = card ?S"
    by (simp add: unat_of_nat)
  with c show ?thesis by blast
qed

theorem count_sieve_survivors_exact_witness:
  "\<exists>data. precompute_create 3 3 4 2 2 = Some data \<and>
      sieve_survives_scalar 2 2 data = Some True \<and> gcd64 2 2 = Some 2 \<and>
      count_sieve_survivors 2 2 2 2 data = Some 0"
proof -
  obtain data where d: "precompute_create 3 3 4 2 2 = Some data"
    using precompute_create_total [of 2 2 3 3 4] by auto
  have le: "(2 :: u64) \<le> 2" by simp
  have g: "gcd64 2 2 = Some 2" by (simp add: gcd64_correct)
  have "\<forall>i<20. sieve_admits 3 3 4 2 2 i"
    using solution_admitted [of 2 3 2 3 2 4] by simp
  then have s: "sieve_survives_scalar 2 2 data = Some True"
    using sieve_survives_scalar_spec [OF d le le] by simp
  let ?S = "{(A, B). (2 :: u64) \<le> A \<and> A \<le> 2 \<and> (2 :: u64) \<le> B \<and> B \<le> 2 \<and>
                 gcd64 A B = Some 1 \<and> sieve_survives_scalar A B data = Some True}"
  have "?S = {}"
  proof -
    have "A = 2 \<and> B = 2" if "(2 :: u64) \<le> A" "A \<le> 2" "(2 :: u64) \<le> B" "B \<le> 2" for A B
      using that by simp
    then show ?thesis using g by auto
  qed
  then have "card ?S = 0" by (simp only: card.empty)
  with count_sieve_survivors_exact [OF d le le, of 2 2] have "count_sieve_survivors 2 2 2 2 data = Some 0"
    by simp
  with d s g show ?thesis by blast
qed


text \<open>
  Claim C5 (integrity digest). The value \<open>log_complete\<close> prints as \<open>integrity_hash\<close> is
  the 64-bit FNV-1a value (offset basis \<open>0xCBF29CE484222325\<close>, prime \<open>0x100000001B3\<close>,
  arithmetic modulo \<open>2^64\<close>) of the fourteen quantities \<open>x\<close>, \<open>y\<close>, \<open>z\<close>, \<open>A_start\<close>,
  \<open>A_max\<close>, \<open>B_start\<close>, \<open>B_max\<close>, \<open>C_max\<close>, \<open>total_pairs\<close>, \<open>gcd_filtered\<close>, \<open>mod_filtered\<close>,
  \<open>exact_checks\<close>, \<open>power_hits\<close>, \<open>primitive_hits\<close>, in this order, each absorbed as one
  64-bit quantity. Whenever a \<open>COMPLETE\<close> record is written its digest is that value
  printed as 16 lowercase hexadecimal digits, which read back as the value; a record is
  written exactly when the log path is not null and the log file could be opened.
\<close>

theorem integrity_hash_is_fnv1a:
  "integrity_hash params results =
     fnv1a64 [ucast (sp_x params), ucast (sp_y params), ucast (sp_z params),
              sp_A_start params, sp_A_max params, sp_B_start params, sp_B_max params,
              sp_C_max params, total_pairs results, gcd_filtered results,
              mod_filtered results, exact_checks results, power_hits results,
              primitive_hits results]
   \<and> (\<forall>digest. log_complete_integrity_hash fopen_ok params results = Some digest \<longrightarrow>
         digest = printf_016x64 (integrity_hash params results))
   \<and> ((\<exists>digest. log_complete_integrity_hash fopen_ok params results = Some digest)
         \<longleftrightarrow> (\<exists>path. log_path params = Some path \<and> fopen_ok path))
   \<and> length (printf_016x64 (integrity_hash params results)) = 16
   \<and> set (printf_016x64 (integrity_hash params results)) \<subseteq> set ''0123456789abcdef''
   \<and> read_hex (printf_016x64 (integrity_hash params results)) 0
       = Some (unat (integrity_hash params results))"
  using integrity_hash_fnv [of params results] printf_016x64_spec [of "integrity_hash params results"]
  by (simp add: log_complete_integrity_hash_def split: option.split)

text \<open>
  The example search with a log file and the counters 4, 1, 2, 1: the record carries the
  digest \<open>18c03648c28ec17e\<close> when the file opens, and nothing is written when it does not.
\<close>

theorem integrity_hash_is_fnv1a_witness:
  "log_complete_integrity_hash (\<lambda>path. True)
       (example_params\<lparr> log_path := Some ''run.jsonl'' \<rparr>)
       (results_init\<lparr> total_pairs := 4, gcd_filtered := 1, mod_filtered := 2,
          exact_checks := 1 \<rparr>)
     = Some ''18c03648c28ec17e''
   \<and> log_complete_integrity_hash (\<lambda>path. False)
       (example_params\<lparr> log_path := Some ''run.jsonl'' \<rparr>)
       (results_init\<lparr> total_pairs := 4, gcd_filtered := 1, mod_filtered := 2,
          exact_checks := 1 \<rparr>)
     = None
   \<and> read_hex ''18c03648c28ec17e'' 0 = Some 1783485138568397182"
proof -
  let ?P = "example_params\<lparr> log_path := Some ''run.jsonl'' \<rparr>"
  let ?R = "results_init\<lparr> total_pairs := 4, gcd_filtered := 1, mod_filtered := 2,
              exact_checks := 1 \<rparr>"
  note t = integrity_hash_is_fnv1a [where params = ?P and results = ?R and fopen_ok = "\<lambda>path. True"]
  note f = integrity_hash_is_fnv1a [where params = ?P and results = ?R and fopen_ok = "\<lambda>path. False"]
  have lp: "log_path ?P = Some ''run.jsonl''" by simp
  from t lp obtain digest where d: "log_complete_integrity_hash (\<lambda>path. True) ?P ?R = Some digest"
    by blast
  with t have "digest = printf_016x64 (integrity_hash ?P ?R)" by blast
  then have 1: "digest = ''18c03648c28ec17e''"
    by (simp only: example_digest example_digest_hex)
  from f have 2: "log_complete_integrity_hash (\<lambda>path. False) ?P ?R = None"
    by (cases "log_complete_integrity_hash (\<lambda>path. False) ?P ?R") auto
  from t have "read_hex (printf_016x64 (integrity_hash ?P ?R)) 0 = Some (unat (integrity_hash ?P ?R))"
    by blast
  then have 3: "read_hex ''18c03648c28ec17e'' 0 = Some 1783485138568397182"
    by (simp only: example_digest example_digest_hex) simp
  from d 1 2 3 show ?thesis by simp
qed


text \<open>
  Claim C6 (counter partition invariant). Whenever \<open>search_parallel\<close> returns, in the build
  with the 8-lane sieve and in the build without, the counters it leaves in the results
  satisfy \<open>gcd_filtered + mod_filtered + exact_checks = total_pairs\<close>. The counters are
  64-bit and the equation holds in their arithmetic; it holds of the numbers themselves
  whenever the left-hand side stays below \<open>2^64\<close>. Every pair tested, on either path, raises
  the count of pairs tested by one and exactly one of the three outcome counters by one.
\<close>

theorem counter_partition:
  "(search_parallel have_avx2 alloc_ok params = Some (results, notices) \<longrightarrow>
      gcd_filtered results + mod_filtered results + exact_checks results = total_pairs results
      \<and> (unat (gcd_filtered results) + unat (mod_filtered results) + unat (exact_checks results)
            < 2 ^ 64 \<longrightarrow>
          unat (gcd_filtered results) + unat (mod_filtered results) + unat (exact_checks results)
            = unat (total_pairs results)))
   \<and> (search_pair_scalar params data A B st = Some st' \<longrightarrow> counted_once st st')
   \<and> (search_pair_avx2 params A B survivors lane st = Some st'' \<longrightarrow> counted_once st st'')"
proof (intro conjI impI)
  assume run: "search_parallel have_avx2 alloc_ok params = Some (results, notices)"
  show w: "gcd_filtered results + mod_filtered results + exact_checks results = total_pairs results"
    by (rule search_parallel_counters [OF run])
  assume lt: "unat (gcd_filtered results) + unat (mod_filtered results) + unat (exact_checks results)
            < 2 ^ 64"
  have "unat (gcd_filtered results) + unat (mod_filtered results) < 2 ^ 64" using lt by simp
  then have 1: "unat (gcd_filtered results + mod_filtered results)
      = unat (gcd_filtered results) + unat (mod_filtered results)"
    by (simp add: unat_add_lem [THEN iffD1])
  then have "unat (gcd_filtered results + mod_filtered results) + unat (exact_checks results) < 2 ^ 64"
    using lt by simp
  then have "unat (gcd_filtered results + mod_filtered results + exact_checks results)
      = unat (gcd_filtered results + mod_filtered results) + unat (exact_checks results)"
    by (simp add: unat_add_lem [THEN iffD1])
  then show "unat (gcd_filtered results) + unat (mod_filtered results) + unat (exact_checks results)
            = unat (total_pairs results)"
    by (simp only: 1 w)
next
  assume "search_pair_scalar params data A B st = Some st'"
  then show "counted_once st st'" by (rule search_pair_scalar_counted_once)
next
  assume "search_pair_avx2 params A B survivors lane st = Some st''"
  then show "counted_once st st''" by (rule search_pair_avx2_counted_once)
qed

text \<open>
  The example search returns with counters that add up, and the pair \<open>(2, 2)\<close>, whose gcd
  is 2, is counted as tested and as filtered by the gcd, on both paths.
\<close>

theorem counter_partition_witness:
  "(\<exists>results notices. search_parallel False True example_params = Some (results, notices) \<and>
      gcd_filtered results + mod_filtered results + exact_checks results = total_pairs results)
   \<and> (\<forall>data. \<exists>st'. search_pair_scalar example_params data 2 2 (search_init results_init) = Some st'
         \<and> a_tested st' = 1 \<and> a_gcd st' = 1 \<and> a_mod st' = 0 \<and> a_exact st' = 0
         \<and> counted_once (search_init results_init) st')
   \<and> (\<forall>survivors. \<exists>st'. search_pair_avx2 example_params 2 2 survivors 0 (search_init results_init) = Some st'
         \<and> a_tested st' = 1 \<and> a_gcd st' = 1 \<and> a_mod st' = 0 \<and> a_exact st' = 0
         \<and> counted_once (search_init results_init) st')"
proof (intro conjI allI)
  obtain results notices where r: "search_parallel False True example_params = Some (results, notices)"
    using search_parallel_scalar_total [of example_params] by (auto simp: example_params_def)
  from counter_partition [of False True example_params results notices] r
  show "\<exists>results notices. search_parallel False True example_params = Some (results, notices) \<and>
      gcd_filtered results + mod_filtered results + exact_checks results = total_pairs results"
    by blast
next
  fix data
  let ?st = "search_init results_init"
  let ?st' = "?st\<lparr> a_tested := a_tested ?st + 1, a_gcd := a_gcd ?st + 1 \<rparr>"
  have e: "search_pair_scalar example_params data 2 2 ?st = Some ?st'"
    by (rule example_gcd_skip_scalar)
  with counter_partition [where params = example_params and data = data and A = 2 and B = 2
      and st = ?st and st' = ?st']
  have "counted_once ?st ?st'" by blast
  with e show "\<exists>st'. search_pair_scalar example_params data 2 2 ?st = Some st'
         \<and> a_tested st' = 1 \<and> a_gcd st' = 1 \<and> a_mod st' = 0 \<and> a_exact st' = 0
         \<and> counted_once ?st st'"
    by (simp add: search_init_def)
next
  fix survivors
  let ?st = "search_init results_init"
  let ?st' = "?st\<lparr> a_tested := a_tested ?st + 1, a_gcd := a_gcd ?st + 1 \<rparr>"
  have e: "search_pair_avx2 example_params 2 2 survivors 0 ?st = Some ?st'"
    by (rule example_gcd_skip_avx2)
  with counter_partition [where params = example_params and A = 2 and B = 2
      and survivors = survivors and lane = 0 and st = ?st and st'' = ?st']
  have "counted_once ?st ?st'" by blast
  with e show "\<exists>st'. search_pair_avx2 example_params 2 2 survivors 0 ?st = Some st'
         \<and> a_tested st' = 1 \<and> a_gcd st' = 1 \<and> a_mod st' = 0 \<and> a_exact st' = 0
         \<and> counted_once ?st st'"
    by (simp add: search_init_def)
qed


text \<open>
  Claim C7 (exit codes). For a run without \<open>--validate\<close>: when an exponent is below 3, a
  start value below 1 or a maximum below its start value, \<open>main\<close> returns 1 and
  \<open>search_parallel\<close> is not called. Otherwise, whenever the search returns, \<open>main\<close> returns
  42 if \<open>primitive_hits\<close> is positive and 0 if it is zero; and \<open>primitive_hits\<close> is positive
  exactly when a \<open>COUNTEREXAMPLE\<close> line was printed for a verified hit with gcd 1, which is
  exactly when the hit array holds a hit with gcd 1. In the build without the 8-lane
  sieve the search does return, with exit code 0 or 42, for all valid parameters whose
  maxima are below \<open>2^64 - 1\<close> (when the tables could be allocated).
\<close>

theorem exit_codes:
  "(sp_x params < 3 \<or> sp_y params < 3 \<or> sp_z params < 3 \<or>
    sp_A_start params < 1 \<or> sp_B_start params < 1 \<or>
    sp_A_max params < sp_A_start params \<or> sp_B_max params < sp_B_start params
      \<longrightarrow> main_run have_avx2 alloc_ok False validation_status params = Some (1, None))
   \<and> (main_run have_avx2 alloc_ok False validation_status params
         = Some (code, Some (results, notices))
      \<longrightarrow> search_parallel have_avx2 alloc_ok params = Some (results, notices)
          \<and> (code = 42 \<longleftrightarrow> primitive_hits results > 0)
          \<and> (code = 0 \<longleftrightarrow> primitive_hits results = 0)
          \<and> (primitive_hits results > 0 \<longleftrightarrow> notices \<noteq> [])
          \<and> (primitive_hits results > 0 \<longleftrightarrow> (\<exists>h\<in>set (hits results). hit_gcd h = 1)))
   \<and> (3 \<le> sp_x params \<and> 3 \<le> sp_y params \<and> 3 \<le> sp_z params \<and>
       1 \<le> sp_A_start params \<and> 1 \<le> sp_B_start params \<and>
       sp_A_start params \<le> sp_A_max params \<and> sp_B_start params \<le> sp_B_max params \<and>
       sp_A_max params \<noteq> - 1 \<and> sp_B_max params \<noteq> - 1
      \<longrightarrow> (\<exists>code results notices.
             main_run False True False validation_status params
               = Some (code, Some (results, notices)) \<and> (code = 0 \<or> code = 42)))"
proof (intro conjI impI)
  assume "sp_x params < 3 \<or> sp_y params < 3 \<or> sp_z params < 3 \<or>
    sp_A_start params < 1 \<or> sp_B_start params < 1 \<or>
    sp_A_max params < sp_A_start params \<or> sp_B_max params < sp_B_start params"
  then show "main_run have_avx2 alloc_ok False validation_status params = Some (1, None)"
    by (auto simp: main_run_def)
next
  assume m: "main_run have_avx2 alloc_ok False validation_status params
         = Some (code, Some (results, notices))"
  then have valid: "\<not> sp_A_start params < 1"
    by (auto simp: main_run_def split: if_splits)
  from m have s: "search_parallel have_avx2 alloc_ok params = Some (results, notices)"
    and c: "code = (if primitive_hits results > 0 then 42 else 0)"
    by (auto simp: main_run_def bind_eq_Some_conv split: if_splits)
  from valid have A: "1 \<le> unat (sp_A_start params)"
    by (simp add: word_less_nat_alt not_less)
  note h = search_parallel_hits [OF s A]
  show "search_parallel have_avx2 alloc_ok params = Some (results, notices)" by (rule s)
  show "(code = 42) = (primitive_hits results > 0)" by (simp add: c)
  show "(code = 0) = (primitive_hits results = 0)" by (simp add: c word_greater_zero_iff)
  show "(primitive_hits results > 0) = (notices \<noteq> [])" by (rule h(1))
  show "(primitive_hits results > 0) = (\<exists>h\<in>set (hits results). hit_gcd h = 1)" by (rule h(2))
next
  assume v: "3 \<le> sp_x params \<and> 3 \<le> sp_y params \<and> 3 \<le> sp_z params \<and>
       1 \<le> sp_A_start params \<and> 1 \<le> sp_B_start params \<and>
       sp_A_start params \<le> sp_A_max params \<and> sp_B_start params \<le> sp_B_max params \<and>
       sp_A_max params \<noteq> - 1 \<and> sp_B_max params \<noteq> - 1"
  then have z: "1 \<le> unat (sp_z params)"
    by (simp add: word_le_nat_alt)
  from v z obtain results notices
    where r: "search_parallel False True params = Some (results, notices)"
    using search_parallel_scalar_total [of params] by blast
  from v have n: "\<not> sp_x params < 3" "\<not> sp_y params < 3" "\<not> sp_z params < 3"
      "\<not> sp_A_start params < 1" "\<not> sp_B_start params < 1"
      "\<not> sp_A_max params < sp_A_start params" "\<not> sp_B_max params < sp_B_start params"
    by (auto simp: not_less)
  have "main_run False True False validation_status params
      = Some (if primitive_hits results > 0 then 42 else 0, Some (results, notices))"
    using n r by (simp add: main_run_def)
  then show "\<exists>code results notices.
             main_run False True False validation_status params
               = Some (code, Some (results, notices)) \<and> (code = 0 \<or> code = 42)"
    by (cases "primitive_hits results > 0") auto
qed

text \<open>
  The example search with \<open>x = 2\<close> is refused with exit code 1; the example search itself
  runs and its exit code follows \<open>primitive_hits\<close>.
\<close>

theorem exit_codes_witness:
  "main_run False True False 0 (example_params\<lparr> sp_x := 2 \<rparr>) = Some (1, None)
   \<and> (\<exists>code results notices.
         main_run False True False 0 example_params = Some (code, Some (results, notices))
         \<and> search_parallel False True example_params = Some (results, notices)
         \<and> (code = 42 \<longleftrightarrow> primitive_hits results > 0)
         \<and> (code = 0 \<longleftrightarrow> primitive_hits results = 0)
         \<and> (primitive_hits results > 0 \<longleftrightarrow> notices \<noteq> []))"
proof
  have "sp_x (example_params\<lparr> sp_x := 2 \<rparr>) < 3" by simp
  with exit_codes [of "example_params\<lparr> sp_x := 2 \<rparr>" False True 0]
  show "main_run False True False 0 (example_params\<lparr> sp_x := 2 \<rparr>) = Some (1, None)"
    by blast
next
  have "3 \<le> sp_x example_params \<and> 3 \<le> sp_y example_params \<and> 3 \<le> sp_z example_params \<and>
       1 \<le> sp_A_start example_params \<and> 1 \<le> sp_B_start example_params \<and>
       sp_A_start example_params \<le> sp_A_max example_params \<and>
       sp_B_start example_params \<le> sp_B_max example_params \<and>
       sp_A_max example_params \<noteq> - 1 \<and> sp_B_max example_params \<noteq> - 1"
    by (simp add: example_params_def)
  with exit_codes [of example_params False True 0]
  obtain code results notices where m: "main_run False True False 0 example_params
      = Some (code, Some (results, notices))"
    by blast
  from exit_codes [of example_params False True 0 code results notices] m
  show "\<exists>code results notices.
         main_run False True False 0 example_params = Some (code, Some (results, notices))
         \<and> search_parallel False True example_params = Some (results, notices)
         \<and> (code = 42 \<longleftrightarrow> primitive_hits results > 0)
         \<and> (code = 0 \<longleftrightarrow> primitive_hits results = 0)
         \<and> (primitive_hits results > 0 \<longleftrightarrow> notices \<noteq> [])"
    by blast
qed

end
